theory Spec2Isabelle
  imports Main
begin

section \<open>Notifications, cancellation tokens and the subscription state\<close>

text \<open>
  The library is a set of closures over mutable objects: AbortControllers, the
  \<open>_closed\<close> flags of SafeSubscribers, the local variables of each operator
  (\<open>let index = 0\<close>, \<open>let active = 0\<close>, ...) and the subscriber array of a Subject.
  The embedding keeps these objects in one explicit state that every function takes
  and returns; a closure of the source is a HOL function on that state, and an object
  reference is an index into the list that holds the objects of its kind.
\<close>

datatype 'a event = Next 'a | Error 'a | Complete

text \<open>
  The three kinds of \<open>abort\<close> listeners the library registers:
  \<^item> \<open>AbortChild c\<close> is \<open>chainAbort\<close>'s \<open>handler = () => childController.abort()\<close>;
  \<^item> \<open>RemoveListener p l\<close> is \<open>chainAbort\<close>'s cleanup
    \<open>() => parentSignal.removeEventListener("abort", handler)\<close>, \<open>l\<close> naming the handler;
  \<^item> \<open>Unregister k\<close> is the Subject's handler that splices subscriber \<open>k\<close> out of
    \<open>_subscribers\<close>.
\<close>

datatype handler = AbortChild nat | RemoveListener nat nat | Unregister nat

text \<open>
  An AbortController with its signal: the \<open>aborted\<close> flag and the listeners of the
  \<open>abort\<close> event in registration order, each with the identity of its callback.
\<close>

record ctrl =
  aborted :: bool
  listeners :: "(nat \<times> handler) list"

datatype 'a cell = Num int | Flag bool | Val 'a | Arr "'a list" | Ref "nat option"

text \<open>
  What a user's observer does when one of its handlers runs: it records the
  notification (under the observer's \<open>name\<close>), may call \<open>abort()\<close> on controllers it
  holds (\<open>react\<close>), and then returns or throws (\<open>raises\<close>). A handler that is absent
  from the partial observer has its \<open>has_...\<close> flag cleared.
\<close>

record 'a obs_spec =
  name :: nat
  has_next :: bool
  has_error :: bool
  has_complete :: bool
  react :: "'a event \<Rightarrow> nat list"
  raises :: "'a event \<Rightarrow> bool"

text \<open>An element of \<open>Subject._subscribers\<close>: a SafeSubscriber (its \<open>_closed\<close> flag, its
  controller) around a user's observer.\<close>

record 'a entry =
  e_sid :: nat
  e_ctrl :: nat
  e_obs :: "'a obs_spec"

record 'a state =
  ctrls :: "ctrl list"
  next_lid :: nat
  fired :: "nat list"
  closed :: "bool list"
  heap :: "'a cell list"
  subscribers :: "'a entry list"
  subject_closed :: bool
  out :: "(nat \<times> 'a event) list"
  reported :: "'a list"
  thrown :: bool

definition init_state :: "'a state" where
  "init_state = \<lparr>ctrls = [], next_lid = 0, fired = [], closed = [], heap = [],
     subscribers = [], subject_closed = False, out = [], reported = [], thrown = False\<rparr>"

text \<open>
  \<open>thrown\<close> says that an exception is on its way up the call stack. The only code that
  throws is a handler of a user's observer (the callbacks of the operators are called
  inside \<open>try\<close> and are functions that return a value or an error), and the library has
  no \<open>try\<close> around its calls of \<open>next\<close>, \<open>error\<close> and \<open>complete\<close>: a statement that
  follows such a call runs only if the call has returned (\<open>unless_thrown\<close>). The caller
  that catches the exception, or the host when it leaves a task, clears the flag
  (\<open>caught\<close>).
\<close>

definition unless_thrown :: "('a state \<Rightarrow> 'a state) \<Rightarrow> 'a state \<Rightarrow> 'a state" where
  "unless_thrown f s = (if thrown s then s else f s)"

definition caught :: "'a state \<Rightarrow> 'a state" where
  "caught s = s\<lparr>thrown := False\<rparr>"

subsection \<open>AbortController and AbortSignal (the platform's objects)\<close>

text \<open>
  \<open>new AbortController()\<close> allocates a controller that is not aborted and has no
  listener; the reference returned is its index.
\<close>

definition new_controller :: "'a state \<Rightarrow> nat \<times> 'a state" where
  "new_controller s =
     (length (ctrls s), s\<lparr>ctrls := ctrls s @ [\<lparr>aborted = False, listeners = []\<rparr>]\<rparr>)"

definition is_aborted :: "nat \<Rightarrow> 'a state \<Rightarrow> bool" where
  "is_aborted c s = (c < length (ctrls s) \<and> aborted (ctrls s ! c))"

definition listeners_of :: "nat \<Rightarrow> 'a state \<Rightarrow> (nat \<times> handler) list" where
  "listeners_of c s = (if c < length (ctrls s) then listeners (ctrls s ! c) else [])"

definition registered :: "nat \<Rightarrow> nat \<Rightarrow> 'a state \<Rightarrow> bool" where
  "registered c l s = (l \<in> fst ` set (listeners_of c s))"

text \<open>\<open>signal.addEventListener("abort", h)\<close> for a callback with identity \<open>l\<close>.\<close>

definition addEventListener :: "nat \<Rightarrow> nat \<Rightarrow> handler \<Rightarrow> 'a state \<Rightarrow> 'a state" where
  "addEventListener c l h s =
     (if c < length (ctrls s)
      then s\<lparr>ctrls := (ctrls s)[c := (ctrls s ! c)\<lparr>listeners := listeners (ctrls s ! c) @ [(l, h)]\<rparr>]\<rparr>
      else s)"

definition removeEventListener :: "nat \<Rightarrow> nat \<Rightarrow> 'a state \<Rightarrow> 'a state" where
  "removeEventListener c l s =
     (if c < length (ctrls s)
      then s\<lparr>ctrls := (ctrls s)[c := (ctrls s ! c)
             \<lparr>listeners := filter (\<lambda>x. fst x \<noteq> l) (listeners (ctrls s ! c))\<rparr>]\<rparr>
      else s)"

text \<open>The Subject's abort handler:
  \<open>index = _subscribers.indexOf(subscriber); if (index >= 0) _subscribers.splice(index, 1)\<close>.\<close>

fun splice_out :: "nat \<Rightarrow> 'a entry list \<Rightarrow> 'a entry list" where
  "splice_out k [] = []"
| "splice_out k (x # xs) = (if e_sid x = k then xs else x # splice_out k xs)"

definition unregister :: "nat \<Rightarrow> 'a state \<Rightarrow> 'a state" where
  "unregister k s = s\<lparr>subscribers := splice_out k (subscribers s)\<rparr>"

text \<open>Setting the flag of controller \<open>c\<close>; \<open>fired\<close> records that its \<open>abort\<close> event is
  dispatched.\<close>

definition mark_aborted :: "nat \<Rightarrow> 'a state \<Rightarrow> 'a state" where
  "mark_aborted c s =
     s\<lparr>ctrls := (ctrls s)[c := (ctrls s ! c)\<lparr>aborted := True\<rparr>], fired := fired s @ [c]\<rparr>"

definition active_ctrls :: "'a state \<Rightarrow> nat" where
  "active_ctrls s = length (filter (\<lambda>c. \<not> aborted c) (ctrls s))"

definition frames_size :: "(nat \<times> (nat \<times> handler) list) list \<Rightarrow> nat" where
  "frames_size st = sum_list (map (\<lambda>f. Suc (length (snd f))) st)"

lemma active_ctrls_removeEventListener [simp]:
  "active_ctrls (removeEventListener c l s) = active_ctrls s"
proof (cases "c < length (ctrls s)")
  case True
  have "map aborted ((ctrls s)[c := (ctrls s ! c)\<lparr>listeners := filter (\<lambda>x. fst x \<noteq> l) (listeners (ctrls s ! c))\<rparr>])
        = map aborted (ctrls s)"
    using True by (simp add: map_update list_update_same_conv)
  then have "length (filter (\<lambda>b. \<not> b) (map aborted ((ctrls s)[c := (ctrls s ! c)\<lparr>listeners := filter (\<lambda>x. fst x \<noteq> l) (listeners (ctrls s ! c))\<rparr>])))
        = length (filter (\<lambda>b. \<not> b) (map aborted (ctrls s)))"
    by simp
  then show ?thesis
    using True by (simp add: active_ctrls_def removeEventListener_def filter_map o_def)
next
  case False
  then show ?thesis by (simp add: removeEventListener_def)
qed

lemma active_ctrls_unregister [simp]: "active_ctrls (unregister k s) = active_ctrls s"
  by (simp add: active_ctrls_def unregister_def)

lemma filter_update_less:
  "i < length xs \<Longrightarrow> P (xs ! i) \<Longrightarrow> \<not> P y \<Longrightarrow>
   length (filter P (xs[i := y])) < length (filter P xs)"
proof (induction xs arbitrary: i)
  case Nil
  then show ?case by simp
next
  case (Cons x xs)
  show ?case
  proof (cases i)
    case 0
    with Cons.prems show ?thesis by simp
  next
    case (Suc j)
    with Cons.prems have "length (filter P (xs[j := y])) < length (filter P xs)"
      by (intro Cons.IH) simp_all
    with Suc show ?thesis by simp
  qed
qed

lemma active_ctrls_mark_aborted:
  "c < length (ctrls s) \<Longrightarrow> \<not> aborted (ctrls s ! c) \<Longrightarrow>
   active_ctrls (mark_aborted c s) < active_ctrls s"
  by (simp add: active_ctrls_def mark_aborted_def filter_update_less)

text \<open>
  \<open>controller.abort()\<close>. On a controller that is already aborted it does nothing.
  Otherwise the flag is set and the \<open>abort\<close> event is dispatched to a snapshot of the
  listeners, in registration order; a listener removed since the snapshot was taken is
  skipped, and one added during the dispatch is not called. A listener may itself call
  \<open>abort()\<close> on another controller, whose dispatch then runs to its end before the next
  listener of the outer one: \<open>dispatch\<close> keeps the pending snapshots as a stack, the
  innermost dispatch first.
\<close>

function dispatch :: "(nat \<times> (nat \<times> handler) list) list \<Rightarrow> 'a state \<Rightarrow> 'a state" where
  "dispatch [] s = s"
| "dispatch ((c, []) # st) s = dispatch st s"
| "dispatch ((c, (l, h) # ls) # st) s =
     (if \<not> registered c l s then dispatch ((c, ls) # st) s
      else case h of
        RemoveListener p k \<Rightarrow> dispatch ((c, ls) # st) (removeEventListener p k s)
      | Unregister k \<Rightarrow> dispatch ((c, ls) # st) (unregister k s)
      | AbortChild d \<Rightarrow>
          (if d < length (ctrls s) \<and> \<not> aborted (ctrls s ! d)
           then dispatch ((d, listeners (ctrls s ! d)) # (c, ls) # st) (mark_aborted d s)
           else dispatch ((c, ls) # st) s))"
  by pat_completeness auto
termination
  by (relation "measures [\<lambda>(st, s). active_ctrls s, \<lambda>(st, s). frames_size st]")
     (auto simp: frames_size_def active_ctrls_mark_aborted)

definition abort :: "nat \<Rightarrow> 'a state \<Rightarrow> 'a state" where
  "abort c s =
     (if c < length (ctrls s) \<and> \<not> aborted (ctrls s ! c)
      then dispatch [(c, listeners (ctrls s ! c))] (mark_aborted c s)
      else s)"


text \<open>\<open>chainAbort(parentSignal, childController)\<close> of \<open>util/chainAbort.ts\<close>. The two closures
  it creates get fresh identities: \<open>handler\<close> the first, the cleanup listener the
  second. The cleanup is registered on the child before \<open>handler\<close> is registered on the
  parent, as in the source.\<close>

definition chainAbort :: "nat \<Rightarrow> nat \<Rightarrow> 'a state \<Rightarrow> 'a state" where
  "chainAbort parentSignal childController s =
     (let handler = next_lid s;
          cleanup = Suc (next_lid s);
          s1 = s\<lparr>next_lid := next_lid s + 2\<rparr>;
          s2 = addEventListener childController cleanup (RemoveListener parentSignal handler) s1
      in addEventListener parentSignal handler (AbortChild childController) s2)"

subsection \<open>Observers, subscribers and Observables\<close>

text \<open>\<open>Partial<Observer<T>>\<close>: each handler may be absent. \<open>Subscriber<T>\<close>: the three
  methods. Both are closures over the state.\<close>

record 'a observer =
  on_next :: "('a \<Rightarrow> 'a state \<Rightarrow> 'a state) option"
  on_error :: "('a \<Rightarrow> 'a state \<Rightarrow> 'a state) option"
  on_complete :: "('a state \<Rightarrow> 'a state) option"

record 'a subscriber =
  s_next :: "'a \<Rightarrow> 'a state \<Rightarrow> 'a state"
  s_error :: "'a \<Rightarrow> 'a state \<Rightarrow> 'a state"
  s_complete :: "'a state \<Rightarrow> 'a state"

datatype 'a observable = Observable (init: "'a subscriber \<Rightarrow> nat \<Rightarrow> 'a state \<Rightarrow> 'a state")

text \<open>Modelled from the spec: \<open>util/hostReportError.ts\<close> is not among the sources. The
  spec calls it a process-wide sink invoked when a terminal error reaches a subscriber
  whose observer provided no \<open>error\<close> handler; the model records the error and
  returns.\<close>

definition hostReportError :: "'a \<Rightarrow> 'a state \<Rightarrow> 'a state" where
  "hostReportError err s = s\<lparr>reported := reported s @ [err]\<rparr>"

definition is_closed :: "nat \<Rightarrow> 'a state \<Rightarrow> bool" where
  "is_closed k s = (k < length (closed s) \<and> closed s ! k)"

definition set_closed :: "nat \<Rightarrow> 'a state \<Rightarrow> 'a state" where
  "set_closed k s = s\<lparr>closed := (closed s)[k := True]\<rparr>"

definition new_closed :: "'a state \<Rightarrow> nat \<times> 'a state" where
  "new_closed s = (length (closed s), s\<lparr>closed := closed s @ [False]\<rparr>)"

text \<open>The methods of \<open>class SafeSubscriber\<close>; \<open>k\<close> is the object's \<open>_closed\<close> flag, \<open>c\<close> its
  \<open>_abortController\<close> and \<open>d\<close> its \<open>_destination\<close>. In \<open>error\<close> and \<open>complete\<close> the flag is set
  before the handler is called, and \<open>this._abortController.abort()\<close> is the statement after
  the call: it is not reached when the handler throws.\<close>

definition SafeSubscriber_next :: "nat \<Rightarrow> nat \<Rightarrow> 'a observer \<Rightarrow> 'a \<Rightarrow> 'a state \<Rightarrow> 'a state" where
  "SafeSubscriber_next k c d v s =
     (if \<not> is_closed k s
      then (case on_next d of Some f \<Rightarrow> f v s | None \<Rightarrow> s)
      else s)"

definition SafeSubscriber_error :: "nat \<Rightarrow> nat \<Rightarrow> 'a observer \<Rightarrow> 'a \<Rightarrow> 'a state \<Rightarrow> 'a state" where
  "SafeSubscriber_error k c d err s =
     (if \<not> is_closed k s
      then unless_thrown (abort c)
             (case on_error d of
                Some f \<Rightarrow> f err (set_closed k s)
              | None \<Rightarrow> hostReportError err (set_closed k s))
      else s)"

definition SafeSubscriber_complete :: "nat \<Rightarrow> nat \<Rightarrow> 'a observer \<Rightarrow> 'a state \<Rightarrow> 'a state" where
  "SafeSubscriber_complete k c d s =
     (if \<not> is_closed k s
      then unless_thrown (abort c)
             (case on_complete d of
                Some f \<Rightarrow> f (set_closed k s)
              | None \<Rightarrow> set_closed k s)
      else s)"

definition SafeSubscriber :: "nat \<Rightarrow> nat \<Rightarrow> 'a observer \<Rightarrow> 'a subscriber" where
  "SafeSubscriber k c d =
     \<lparr>s_next = SafeSubscriber_next k c d,
      s_error = SafeSubscriber_error k c d,
      s_complete = SafeSubscriber_complete k c d\<rparr>"

text \<open>\<open>Observable.subscribe(observer, signal?)\<close>.\<close>

definition subscribe :: "'a observable \<Rightarrow> 'a observer \<Rightarrow> nat option \<Rightarrow> 'a state \<Rightarrow> 'a state" where
  "subscribe this observer signal s =
     (let (abortController, s1) = new_controller s;
          s2 = (case signal of Some p \<Rightarrow> chainAbort p abortController s1 | None \<Rightarrow> s1);
          (k, s3) = new_closed s2;
          subscriber = SafeSubscriber k abortController observer
      in init this subscriber abortController s3)"

text \<open>
  An Observable whose producer emits after \<open>subscribe\<close> has returned (a timer, a
  promise, a Subject): its subscription procedure changes nothing, and its
  notifications are later calls of the methods of the SafeSubscriber that \<open>subscribe\<close>
  created.
\<close>

definition deferred :: "'a observable" where
  "deferred = Observable (\<lambda>subscriber signal s. s)"

text \<open>A user's observer, built from its description: a handler that is present
  records the notification, aborts the controllers \<open>react\<close> lists for it, and throws if
  \<open>raises\<close> says so.\<close>

definition notify :: "'a obs_spec \<Rightarrow> 'a event \<Rightarrow> 'a state \<Rightarrow> 'a state" where
  "notify ob ev s =
     (let s' = fold abort (react ob ev) (s\<lparr>out := out s @ [(name ob, ev)]\<rparr>)
      in if raises ob ev then s'\<lparr>thrown := True\<rparr> else s')"

definition user_observer :: "'a obs_spec \<Rightarrow> 'a observer" where
  "user_observer ob =
     \<lparr>on_next = (if has_next ob then Some (\<lambda>v. notify ob (Next v)) else None),
      on_error = (if has_error ob then Some (\<lambda>e. notify ob (Error e)) else None),
      on_complete = (if has_complete ob then Some (notify ob Complete) else None)\<rparr>"

definition collector :: "nat \<Rightarrow> 'a obs_spec" where
  "collector n = \<lparr>name = n, has_next = True, has_error = True, has_complete = True,
     react = (\<lambda>ev. []), raises = (\<lambda>ev. False)\<rparr>"

subsection \<open>What a dispatch leaves unchanged\<close>

lemma dispatch_closed [simp]: "closed (dispatch st s) = closed s"
  by (induction st s rule: dispatch.induct)
     (auto simp: removeEventListener_def unregister_def mark_aborted_def split: handler.splits)

lemma dispatch_out [simp]: "out (dispatch st s) = out s"
  by (induction st s rule: dispatch.induct)
     (auto simp: removeEventListener_def unregister_def mark_aborted_def split: handler.splits)

lemma dispatch_heap [simp]: "heap (dispatch st s) = heap s"
  by (induction st s rule: dispatch.induct)
     (auto simp: removeEventListener_def unregister_def mark_aborted_def split: handler.splits)

lemma dispatch_reported [simp]: "reported (dispatch st s) = reported s"
  by (induction st s rule: dispatch.induct)
     (auto simp: removeEventListener_def unregister_def mark_aborted_def split: handler.splits)

lemma dispatch_subject_closed [simp]: "subject_closed (dispatch st s) = subject_closed s"
  by (induction st s rule: dispatch.induct)
     (auto simp: removeEventListener_def unregister_def mark_aborted_def split: handler.splits)

lemma dispatch_next_lid [simp]: "next_lid (dispatch st s) = next_lid s"
  by (induction st s rule: dispatch.induct)
     (auto simp: removeEventListener_def unregister_def mark_aborted_def split: handler.splits)

lemma dispatch_thrown [simp]: "thrown (dispatch st s) = thrown s"
  by (induction st s rule: dispatch.induct)
     (auto simp: removeEventListener_def unregister_def mark_aborted_def split: handler.splits)

lemma dispatch_length_ctrls [simp]: "length (ctrls (dispatch st s)) = length (ctrls s)"
  by (induction st s rule: dispatch.induct)
     (auto simp: removeEventListener_def unregister_def mark_aborted_def split: handler.splits)

lemma is_aborted_removeEventListener [simp]:
  "is_aborted c (removeEventListener p l s) = is_aborted c s"
  by (auto simp: is_aborted_def removeEventListener_def nth_list_update)

lemma is_aborted_unregister [simp]: "is_aborted c (unregister k s) = is_aborted c s"
  by (simp add: is_aborted_def unregister_def)

lemma is_aborted_mark_aborted:
  "is_aborted c (mark_aborted d s) = (is_aborted c s \<or> (c = d \<and> d < length (ctrls s)))"
  by (cases "c = d") (auto simp: is_aborted_def mark_aborted_def)

lemma dispatch_is_aborted_mono: "is_aborted c s \<Longrightarrow> is_aborted c (dispatch st s)"
  by (induction st s rule: dispatch.induct)
     (auto simp: is_aborted_mark_aborted split: handler.splits)

lemma length_splice_out: "length (splice_out k xs) \<le> length xs"
  by (induction xs) auto

lemma dispatch_length_subscribers:
  "length (subscribers (dispatch st s)) \<le> length (subscribers s)"
proof (induction st s rule: dispatch.induct)
  case (3 c l h ls st s)
  show ?case
  proof (cases "registered c l s")
    case False
    with 3 show ?thesis by simp
  next
    case True
    show ?thesis
    proof (cases h)
      case (AbortChild d)
      with True 3 show ?thesis
        by (cases "d < length (ctrls s) \<and> \<not> aborted (ctrls s ! d)")
           (auto simp: mark_aborted_def)
    next
      case (RemoveListener p k)
      with True 3 show ?thesis by (auto simp: removeEventListener_def)
    next
      case (Unregister k)
      with True 3 have "length (subscribers (dispatch ((c, ls) # st) (unregister k s)))
          \<le> length (subscribers (unregister k s))"
        by simp
      also have "\<dots> \<le> length (subscribers s)"
        by (simp add: unregister_def length_splice_out)
      finally show ?thesis using True Unregister by simp
    qed
  qed
qed simp_all

lemma abort_closed [simp]: "closed (abort c s) = closed s"
  by (simp add: abort_def mark_aborted_def)

lemma abort_out [simp]: "out (abort c s) = out s"
  by (simp add: abort_def mark_aborted_def)

lemma abort_heap [simp]: "heap (abort c s) = heap s"
  by (simp add: abort_def mark_aborted_def)

lemma abort_reported [simp]: "reported (abort c s) = reported s"
  by (simp add: abort_def mark_aborted_def)

lemma abort_subject_closed [simp]: "subject_closed (abort c s) = subject_closed s"
  by (simp add: abort_def mark_aborted_def)

lemma abort_next_lid [simp]: "next_lid (abort c s) = next_lid s"
  by (simp add: abort_def mark_aborted_def)

lemma abort_thrown [simp]: "thrown (abort c s) = thrown s"
  by (simp add: abort_def mark_aborted_def)

lemma abort_length_ctrls [simp]: "length (ctrls (abort c s)) = length (ctrls s)"
  by (simp add: abort_def mark_aborted_def)

lemma abort_is_aborted_mono: "is_aborted d s \<Longrightarrow> is_aborted d (abort c s)"
  by (simp add: abort_def dispatch_is_aborted_mono is_aborted_mark_aborted)

lemma abort_aborts: "c < length (ctrls s) \<Longrightarrow> is_aborted c (abort c s)"
  by (auto simp: abort_def is_aborted_mark_aborted intro!: dispatch_is_aborted_mono)
     (simp add: is_aborted_def)

lemma abort_length_subscribers: "length (subscribers (abort c s)) \<le> length (subscribers s)"
proof -
  have "length (subscribers (dispatch st (mark_aborted c s))) \<le> length (subscribers s)" for st
    using dispatch_length_subscribers [of st "mark_aborted c s"] by (simp add: mark_aborted_def)
  then show ?thesis by (simp add: abort_def)
qed

lemma fold_abort_closed [simp]: "closed (fold abort cs s) = closed s"
  by (induction cs arbitrary: s) auto

lemma fold_abort_out [simp]: "out (fold abort cs s) = out s"
  by (induction cs arbitrary: s) auto

lemma fold_abort_heap [simp]: "heap (fold abort cs s) = heap s"
  by (induction cs arbitrary: s) auto

lemma fold_abort_reported [simp]: "reported (fold abort cs s) = reported s"
  by (induction cs arbitrary: s) auto

lemma fold_abort_subject_closed [simp]: "subject_closed (fold abort cs s) = subject_closed s"
  by (induction cs arbitrary: s) auto

lemma fold_abort_thrown [simp]: "thrown (fold abort cs s) = thrown s"
  by (induction cs arbitrary: s) auto

lemma fold_abort_length_ctrls [simp]: "length (ctrls (fold abort cs s)) = length (ctrls s)"
  by (induction cs arbitrary: s) auto

lemma fold_abort_is_aborted_mono: "is_aborted d s \<Longrightarrow> is_aborted d (fold abort cs s)"
  by (induction cs arbitrary: s) (auto simp: abort_is_aborted_mono)

lemma fold_abort_length_subscribers:
  "length (subscribers (fold abort cs s)) \<le> length (subscribers s)"
proof (induction cs arbitrary: s)
  case (Cons c cs)
  then show ?case using abort_length_subscribers [of c s] order_trans by fastforce
qed simp

lemma notify_closed [simp]: "closed (notify ob ev s) = closed s"
  by (simp add: notify_def Let_def)

lemma notify_out [simp]: "out (notify ob ev s) = out s @ [(name ob, ev)]"
  by (simp add: notify_def Let_def)

lemma notify_heap [simp]: "heap (notify ob ev s) = heap s"
  by (simp add: notify_def Let_def)

lemma notify_length_ctrls [simp]: "length (ctrls (notify ob ev s)) = length (ctrls s)"
  by (simp add: notify_def Let_def)

lemma notify_is_aborted_mono: "is_aborted d s \<Longrightarrow> is_aborted d (notify ob ev s)"
proof -
  assume "is_aborted d s"
  then have "is_aborted d (s\<lparr>out := out s @ [(name ob, ev)]\<rparr>)"
    by (simp add: is_aborted_def)
  then have "is_aborted d (fold abort (react ob ev) (s\<lparr>out := out s @ [(name ob, ev)]\<rparr>))"
    by (rule fold_abort_is_aborted_mono)
  then show ?thesis
    by (simp add: notify_def Let_def is_aborted_def)
qed

lemma unless_thrown_abort_length_subscribers:
  "length (subscribers (unless_thrown (abort c) s)) \<le> length (subscribers s)"
  by (simp add: unless_thrown_def abort_length_subscribers)

subsection \<open>Notifications as calls\<close>

text \<open>Calling the method of a subscriber that a notification names.\<close>

definition call :: "'a subscriber \<Rightarrow> 'a event \<Rightarrow> 'a state \<Rightarrow> 'a state" where
  "call sub ev s =
     (case ev of Next v \<Rightarrow> s_next sub v s | Error e \<Rightarrow> s_error sub e s | Complete \<Rightarrow> s_complete sub s)"

fun is_terminal :: "'a event \<Rightarrow> bool" where
  "is_terminal (Next v) = False"
| "is_terminal (Error e) = True"
| "is_terminal Complete = True"

text \<open>Whether the partial observer has the handler of a notification.\<close>

fun present :: "'a obs_spec \<Rightarrow> 'a event \<Rightarrow> bool" where
  "present ob (Next v) = has_next ob"
| "present ob (Error e) = has_error ob"
| "present ob Complete = has_complete ob"

section \<open>Creating Observables: \<open>Observable.from\<close> and \<open>Observable.of\<close>\<close>

text \<open>
  What \<open>Observable.from(input: any)\<close> reads of its argument: whether it is \<open>null\<close> or
  \<open>undefined\<close> (reading a member of such a value throws a TypeError), whether
  \<open>typeof input[Symbol.iterator]\<close>, \<open>typeof input.then\<close> and \<open>typeof input.catch\<close> are
  \<open>"function"\<close>, and the values its iterator yields. An iterable is a finite list of
  values here; the loop over an iterator that never ends does not return and is outside
  the model.
\<close>

record 'a input =
  nullish :: bool
  iterator_is_function :: bool
  elements :: "'a list"
  then_is_function :: bool
  catch_is_function :: bool

datatype error = TypeError string

definition isPromiseLike :: "'a input \<Rightarrow> bool" where
  "isPromiseLike inp = (then_is_function inp \<and> catch_is_function inp)"

text \<open>The loop \<open>for (const value of iterator) { if (signal.aborted) break; subscriber.next(value) }\<close>
  and the \<open>subscriber.complete()\<close> that follows it. An exception of \<open>subscriber.next\<close>
  leaves the loop and the procedure.\<close>

fun from_loop :: "'a subscriber \<Rightarrow> nat \<Rightarrow> 'a list \<Rightarrow> 'a state \<Rightarrow> 'a state" where
  "from_loop subscriber signal [] s = s"
| "from_loop subscriber signal (v # vs) s =
     (if is_aborted signal s then s
      else let s' = s_next subscriber v s
           in if thrown s' then s' else from_loop subscriber signal vs s')"

definition from_iterable :: "'a list \<Rightarrow> 'a subscriber \<Rightarrow> nat \<Rightarrow> 'a state \<Rightarrow> 'a state" where
  "from_iterable vs subscriber signal s =
     unless_thrown (s_complete subscriber) (from_loop subscriber signal vs s)"

text \<open>The promise branch registers \<open>then\<close> callbacks, which run after \<open>subscribe\<close> has
  returned: subscribing changes nothing, and the settlement calls the subscriber
  later.\<close>

definition from_promise :: "'a subscriber \<Rightarrow> nat \<Rightarrow> 'a state \<Rightarrow> 'a state" where
  "from_promise subscriber signal s = s"

definition promise_fulfilled :: "'a subscriber \<Rightarrow> 'a \<Rightarrow> 'a state \<Rightarrow> 'a state" where
  "promise_fulfilled subscriber v s =
     unless_thrown (s_complete subscriber) (s_next subscriber v s)"

definition promise_rejected :: "'a subscriber \<Rightarrow> 'a \<Rightarrow> 'a state \<Rightarrow> 'a state" where
  "promise_rejected subscriber err s = s_error subscriber err s"

definition Observable_from :: "'a input \<Rightarrow> error + 'a observable" where
  "Observable_from inp =
     (if nullish inp then Inl (TypeError ''Cannot read properties of null or undefined'')
      else if iterator_is_function inp then Inr (Observable (from_iterable (elements inp)))
      else if isPromiseLike inp then Inr (Observable from_promise)
      else Inl (TypeError ''Value is not observable''))"

text \<open>An array as an input, and \<open>Observable.of(...values) = Observable.from(values)\<close>.\<close>

definition array_input :: "'a list \<Rightarrow> 'a input" where
  "array_input vs = \<lparr>nullish = False, iterator_is_function = True, elements = vs,
     then_is_function = False, catch_is_function = False\<rparr>"

definition Observable_of :: "'a list \<Rightarrow> 'a observable" where
  "Observable_of vs = Observable (from_iterable vs)"

text \<open>\<open>Observable.from(input).subscribe(observer, signal)\<close> as one program: the
  exception of \<open>from\<close> ends it before \<open>subscribe\<close> is reached.\<close>

definition from_subscribe ::
  "'a input \<Rightarrow> 'a observer \<Rightarrow> nat option \<Rightarrow> 'a state \<Rightarrow> error + 'a state" where
  "from_subscribe inp observer signal s =
     (case Observable_from inp of
        Inl e \<Rightarrow> Inl e
      | Inr ob \<Rightarrow> Inr (subscribe ob observer signal s))"

lemma Observable_from_array: "Observable_from (array_input vs) = Inr (Observable_of vs)"
  by (simp add: Observable_from_def array_input_def Observable_of_def)

text \<open>
  C10. An input whose \<open>Symbol.iterator\<close> member is not a function and which is not
  promise-like (\<open>then\<close> and \<open>catch\<close> both functions) makes \<open>Observable.from\<close> throw a
  TypeError instead of returning an Observable, so a program that goes on to subscribe
  ends with that TypeError and creates no subscriber.
\<close>

theorem from_rejects_unobservable:
  assumes "\<not> iterator_is_function inp" and "\<not> isPromiseLike inp"
  shows "\<exists>msg. Observable_from inp = Inl (TypeError msg)
           \<and> from_subscribe inp observer signal s = Inl (TypeError msg)"
  using assms by (simp add: Observable_from_def from_subscribe_def)

theorem from_rejects_unobservable_witness:
  "\<not> iterator_is_function
        \<lparr>nullish = False, iterator_is_function = False, elements = ([] :: int list),
         then_is_function = True, catch_is_function = False\<rparr>
   \<and> \<not> isPromiseLike
        \<lparr>nullish = False, iterator_is_function = False, elements = ([] :: int list),
         then_is_function = True, catch_is_function = False\<rparr>
   \<and> (\<exists>msg. Observable_from
        \<lparr>nullish = False, iterator_is_function = False, elements = ([] :: int list),
         then_is_function = True, catch_is_function = False\<rparr> = Inl (TypeError msg)
      \<and> from_subscribe
        \<lparr>nullish = False, iterator_is_function = False, elements = ([] :: int list),
         then_is_function = True, catch_is_function = False\<rparr>
        (user_observer (collector 0)) None init_state = Inl (TypeError msg))"
proof -
  let ?inp = "\<lparr>nullish = False, iterator_is_function = False, elements = ([] :: int list),
         then_is_function = True, catch_is_function = False\<rparr>"
  have h: "\<not> iterator_is_function ?inp" "\<not> isPromiseLike ?inp"
    by (simp_all add: isPromiseLike_def)
  from from_rejects_unobservable [OF h, of "user_observer (collector 0)" None init_state] h
  show ?thesis by blast
qed

section \<open>Operators\<close>

subsection \<open>Local variables of an operator\<close>

text \<open>A \<open>let\<close> variable of an operator's subscription procedure is a cell of the heap,
  allocated when the procedure runs; the closures it creates share the cell.\<close>

definition alloc :: "'a cell \<Rightarrow> 'a state \<Rightarrow> nat \<times> 'a state" where
  "alloc x s = (length (heap s), s\<lparr>heap := heap s @ [x]\<rparr>)"

definition get_num :: "nat \<Rightarrow> 'a state \<Rightarrow> int" where
  "get_num i s = (if i < length (heap s) then (case heap s ! i of Num n \<Rightarrow> n | _ \<Rightarrow> 0) else 0)"

definition get_flag :: "nat \<Rightarrow> 'a state \<Rightarrow> bool" where
  "get_flag i s =
     (if i < length (heap s) then (case heap s ! i of Flag b \<Rightarrow> b | _ \<Rightarrow> False) else False)"

definition get_arr :: "nat \<Rightarrow> 'a state \<Rightarrow> 'a list" where
  "get_arr i s = (if i < length (heap s) then (case heap s ! i of Arr xs \<Rightarrow> xs | _ \<Rightarrow> []) else [])"

definition get_ref :: "nat \<Rightarrow> 'a state \<Rightarrow> nat option" where
  "get_ref i s =
     (if i < length (heap s) then (case heap s ! i of Ref r \<Rightarrow> r | _ \<Rightarrow> None) else None)"

definition get_val :: "'a \<Rightarrow> nat \<Rightarrow> 'a state \<Rightarrow> 'a" where
  "get_val dflt i s =
     (if i < length (heap s) then (case heap s ! i of Val v \<Rightarrow> v | _ \<Rightarrow> dflt) else dflt)"

definition set_cell :: "nat \<Rightarrow> 'a cell \<Rightarrow> 'a state \<Rightarrow> 'a state" where
  "set_cell i x s = s\<lparr>heap := (heap s)[i := x]\<rparr>"

subsection \<open>\<open>filter\<close>, \<open>take\<close> and \<open>scan\<close>\<close>

text \<open>A user callback is a pure function of its arguments that returns (\<open>Inr\<close>) or
  throws (\<open>Inl\<close>).\<close>

definition filter_next ::
  "('a \<Rightarrow> int \<Rightarrow> 'a + bool) \<Rightarrow> 'a subscriber \<Rightarrow> nat \<Rightarrow> 'a \<Rightarrow> 'a state \<Rightarrow> 'a state" where
  "filter_next callback subscriber index value s =
     (let i = get_num index s;
          s' = set_cell index (Num (i + 1)) s
      in case callback value i of
           Inl err \<Rightarrow> s_error subscriber err s'
         | Inr result \<Rightarrow> if result then s_next subscriber value s' else s')"

definition filter_init ::
  "('a \<Rightarrow> int \<Rightarrow> 'a + bool) \<Rightarrow> 'a observable \<Rightarrow> 'a subscriber \<Rightarrow> nat \<Rightarrow> 'a state \<Rightarrow> 'a state" where
  "filter_init callback this subscriber signal s =
     (let (index, s1) = alloc (Num 0) s in
      subscribe this
        \<lparr>on_next = Some (filter_next callback subscriber index),
         on_error = Some (s_error subscriber),
         on_complete = Some (s_complete subscriber)\<rparr>
        (Some signal) s1)"

definition Observable_filter :: "('a \<Rightarrow> int \<Rightarrow> 'a + bool) \<Rightarrow> 'a observable \<Rightarrow> 'a observable" where
  "Observable_filter callback this = Observable (filter_init callback this)"

definition take_next :: "int \<Rightarrow> 'a subscriber \<Rightarrow> nat \<Rightarrow> 'a \<Rightarrow> 'a state \<Rightarrow> 'a state" where
  "take_next count subscriber i value s =
     unless_thrown
       (\<lambda>s'. let s'' = set_cell i (Num (get_num i s' + 1)) s'
             in if get_num i s'' = count then s_complete subscriber s'' else s'')
       (s_next subscriber value s)"

definition take_init :: "int \<Rightarrow> 'a observable \<Rightarrow> 'a subscriber \<Rightarrow> nat \<Rightarrow> 'a state \<Rightarrow> 'a state" where
  "take_init count this subscriber signal s =
     (let (i, s1) = alloc (Num 0) s in
      subscribe this
        \<lparr>on_next = Some (take_next count subscriber i),
         on_error = Some (s_error subscriber),
         on_complete = Some (s_complete subscriber)\<rparr>
        (Some signal) s1)"

text \<open>\<open>take(count)\<close>, with \<open>count = Math.max(count, 0)\<close>.\<close>

definition Observable_take :: "int \<Rightarrow> 'a observable \<Rightarrow> 'a observable" where
  "Observable_take count this = Observable (take_init (max count 0) this)"

text \<open>The values \<open>scan\<close> is run on: \<open>undefined\<close> (what \<open>initialValue!\<close> is when no seed is
  passed), integers, and \<open>NaN\<close>. \<open>js_add\<close> is \<open>a + b\<close> on them (integers stand for the
  numbers that JavaScript adds exactly).\<close>

datatype jsval = JUndefined | JNum int | JNaN

fun js_add :: "jsval \<Rightarrow> jsval \<Rightarrow> jsval" where
  "js_add (JNum a) (JNum b) = JNum (a + b)"
| "js_add a b = JNaN"

text \<open>\<open>scan(callback, initialValue?)\<close>; the seed is \<open>None\<close> when \<open>arguments.length\<close> is not
  2, so \<open>hasInit\<close> is \<open>initialValue \<noteq> None\<close> and \<open>let state = initialValue!\<close> starts as
  \<open>undefined\<close> then.\<close>

definition scan_next ::
  "(jsval \<Rightarrow> jsval \<Rightarrow> int \<Rightarrow> jsval + jsval) \<Rightarrow> bool \<Rightarrow> jsval subscriber \<Rightarrow> nat \<Rightarrow> nat \<Rightarrow>
   jsval \<Rightarrow> jsval state \<Rightarrow> jsval state" where
  "scan_next callback hasInit subscriber state i value s =
     (let index = get_num i s;
          s' = set_cell i (Num (index + 1)) s
      in unless_thrown
           (\<lambda>s''. case callback (get_val JUndefined state s'') value index of
                     Inl err \<Rightarrow> s_error subscriber err s''
                   | Inr r \<Rightarrow> s_next subscriber r (set_cell state (Val r) s''))
           (if \<not> hasInit \<and> index = 0 then s_next subscriber value s' else s'))"

definition scan_init ::
  "(jsval \<Rightarrow> jsval \<Rightarrow> int \<Rightarrow> jsval + jsval) \<Rightarrow> bool \<Rightarrow> jsval \<Rightarrow> jsval observable \<Rightarrow>
   jsval subscriber \<Rightarrow> nat \<Rightarrow> jsval state \<Rightarrow> jsval state" where
  "scan_init callback hasInit initialValue this subscriber signal s =
     (let (state, s1) = alloc (Val initialValue) s;
          (i, s2) = alloc (Num 0) s1 in
      subscribe this
        \<lparr>on_next = Some (scan_next callback hasInit subscriber state i),
         on_error = Some (s_error subscriber),
         on_complete = Some (s_complete subscriber)\<rparr>
        (Some signal) s2)"

definition Observable_scan ::
  "(jsval \<Rightarrow> jsval \<Rightarrow> int \<Rightarrow> jsval + jsval) \<Rightarrow> jsval option \<Rightarrow> jsval observable \<Rightarrow> jsval observable" where
  "Observable_scan callback initialValue this =
     Observable (scan_init callback (initialValue \<noteq> None)
       (case initialValue of Some v \<Rightarrow> v | None \<Rightarrow> JUndefined) this)"

definition add_values :: "jsval \<Rightarrow> jsval \<Rightarrow> int \<Rightarrow> jsval + jsval" where
  "add_values a b index = Inr (js_add a b)"

section \<open>Running pipelines on concrete inputs\<close>

text \<open>The defining equations of the operations that take the state, restricted to a
  state that is written out: the simplifier then runs a closure only once the state it
  is applied to has been computed.\<close>

declare from_loop.simps [simp del]

lemmas on_state =
  unless_thrown_def caught_def from_loop.simps
  new_controller_def new_closed_def chainAbort_def addEventListener_def
  removeEventListener_def SafeSubscriber_next_def SafeSubscriber_error_def
  SafeSubscriber_complete_def is_closed_def set_closed_def is_aborted_def abort_def
  mark_aborted_def registered_def listeners_of_def unregister_def notify_def
  alloc_def get_num_def get_flag_def get_arr_def get_ref_def get_val_def set_cell_def
  hostReportError_def subscribe_def from_iterable_def take_next_def filter_next_def
  take_init_def filter_init_def scan_next_def scan_init_def

lemmas eval_state = on_state [where s = "\<lparr>ctrls = cs, next_lid = nl, fired = fi, closed = cl,
     heap = hp, subscribers = sb, subject_closed = sc, out = ou, reported = rp, thrown = th\<rparr>"]
  for cs nl fi cl hp sb sc ou rp th

lemmas eval_defs = eval_state SafeSubscriber_def user_observer_def collector_def
  init_state_def Observable_of_def Observable_take_def Observable_filter_def
  Observable_scan_def add_values_def

text \<open>
  C6. \<open>Observable.of(1, 2, 3).scan((a, b) => a + b)\<close> with no seed, subscribed by an
  observer that records what it receives. The specification gives \<open>[1, 3, 6]\<close>. The source's
  \<open>next\<close> handler forwards the first value but neither stores it in \<open>state\<close> nor
  returns, so the callback then runs on \<open>undefined\<close> and the first value: four values
  arrive, and all but the first are \<open>NaN\<close>.
\<close>

theorem scan_without_seed_yields_NaN:
  "out (subscribe (Observable_scan add_values None (Observable_of [JNum 1, JNum 2, JNum 3]))
         (user_observer (collector 0)) None init_state)
   = [(0, Next (JNum 1)), (0, Next JNaN), (0, Next JNaN), (0, Next JNaN), (0, Complete)]"
  by (simp add: eval_defs)

text \<open>With the seed 10 the same pipeline yields \<open>[11, 13, 16]\<close>, as the specification says.\<close>

lemma scan_with_seed_10:
  "out (subscribe (Observable_scan add_values (Some (JNum 10)) (Observable_of [JNum 1, JNum 2, JNum 3]))
         (user_observer (collector 0)) None init_state)
   = [(0, Next (JNum 11)), (0, Next (JNum 13)), (0, Next (JNum 16)), (0, Complete)]"
  by (simp add: eval_defs)

text \<open>
  C7. \<open>Observable.of(1, 2, 3).filter(() => true).take(0)\<close>: the specification allows no value
  downstream for \<open>k = 0\<close>. \<open>take\<close>'s handler forwards the value before it compares
  \<open>++i\<close> with \<open>count\<close>, and \<open>++i\<close> is never 0: every value is forwarded, and the
  completion is the source's.
\<close>

theorem take_zero_forwards_every_value:
  "out (subscribe (Observable_take 0 (Observable_filter (\<lambda>v i. Inr True) (Observable_of [1::int, 2, 3])))
         (user_observer (collector 0)) None init_state)
   = [(0, Next 1), (0, Next 2), (0, Next 3), (0, Complete)]"
  by (simp add: eval_defs)

text \<open>For \<open>k = 2\<close> the pipeline stops after the second value that passes.\<close>

lemma take_two_of_filtered:
  "out (subscribe (Observable_take 2 (Observable_filter (\<lambda>v i. Inr (v \<noteq> 2)) (Observable_of [1::int, 2, 3, 4, 5])))
         (user_observer (collector 0)) None init_state)
   = [(0, Next 1), (0, Next 3), (0, Complete)]"
  by (simp add: eval_defs)

text \<open>
  C9. \<open>Observable.from([1, 2, 3]).subscribe(observer, signal)\<close>, where \<open>signal\<close> is the
  signal of a controller of the caller (controller 0) and the observer's \<open>next\<close> handler
  aborts that controller when it receives 1. The subscription's own controller
  (controller 1) is aborted through the chain, the loop breaks before 2, and the
  \<open>subscriber.complete()\<close> after the loop runs all the same: the SafeSubscriber is not
  closed by an abort, so the observer receives \<open>complete\<close>, which the specification excludes.
\<close>

definition aborting_observer :: "int obs_spec" where
  "aborting_observer = \<lparr>name = 0, has_next = True, has_error = True, has_complete = True,
     react = (\<lambda>ev. if ev = Next 1 then [0] else []), raises = (\<lambda>ev. False)\<rparr>"

theorem from_completes_after_abort:
  "out (subscribe (Observable_of [1, 2, 3]) (user_observer aborting_observer) (Some 0)
         (snd (new_controller init_state)))
     = [(0, Next 1), (0, Complete)]
   \<and> fired (from_loop (SafeSubscriber 0 1 (user_observer aborting_observer)) 1 [1, 2, 3]
         (snd (new_closed (chainAbort 0 1 (snd (new_controller (snd (new_controller init_state))))))))
     = [0, 1]"
  by (simp add: eval_defs aborting_observer_def)

section \<open>The subscriber contract\<close>

text \<open>
  What is done with a subscriber, by its producer or by the handlers of its own
  observer. \<open>Call ev acts thr\<close> calls the method that \<open>ev\<close> names. If the call reaches a
  handler of the observer, that handler records the notification and does \<open>acts\<close> in
  turn: it may call the methods of the same subscriber again, while the first call has
  not returned, and it goes on after a call that threw (it has caught the exception).
  Then it throws (\<open>thr\<close>) or returns. A handler that lets the exception of one of its
  calls pass is one whose \<open>acts\<close> end with that call and whose \<open>thr\<close> is set. \<open>Cancel n\<close>
  is \<open>abort()\<close> on controller \<open>n\<close>. A handler that returns control has done finitely
  many such things, so every run of an observer's handlers is one of these trees; which
  handlers the observer has is read from its description \<open>ob\<close>.
\<close>

datatype 'a act = Call "'a event" "'a act list" bool | Cancel nat

definition scripted :: "'a obs_spec \<Rightarrow> ('a event \<Rightarrow> 'a state \<Rightarrow> 'a state) \<Rightarrow> 'a observer" where
  "scripted ob handler =
     \<lparr>on_next = (if has_next ob then Some (\<lambda>v. handler (Next v)) else None),
      on_error = (if has_error ob then Some (\<lambda>e. handler (Error e)) else None),
      on_complete = (if has_complete ob then Some (handler Complete) else None)\<rparr>"

text \<open>\<open>perform k c ob a\<close> does \<open>a\<close> with the SafeSubscriber whose \<open>_closed\<close> flag is \<open>k\<close> and
  whose controller is \<open>c\<close>; \<open>performs\<close> does a sequence, each call made with no exception
  in flight.\<close>

fun perform :: "nat \<Rightarrow> nat \<Rightarrow> 'a obs_spec \<Rightarrow> 'a act \<Rightarrow> 'a state \<Rightarrow> 'a state" where
  "perform k c ob (Call ev acts thr) s =
     call (SafeSubscriber k c
            (scripted ob (\<lambda>ev' s'.
               (fold (\<lambda>a s''. perform k c ob a (caught s'')) acts
                  (s'\<lparr>out := out s' @ [(name ob, ev')]\<rparr>))\<lparr>thrown := thr\<rparr>)))
       ev s"
| "perform k c ob (Cancel n) s = abort n s"

definition performs :: "nat \<Rightarrow> nat \<Rightarrow> 'a obs_spec \<Rightarrow> 'a act list \<Rightarrow> 'a state \<Rightarrow> 'a state" where
  "performs k c ob acts s = fold (\<lambda>a s'. perform k c ob a (caught s')) acts s"

text \<open>What the observer has received between two states, and the contract on it:
  \<open>contract b evs b'\<close> relates whether the subscriber was closed before, the notifications
  delivered, and whether it is closed afterwards. A closed subscriber delivers nothing
  and stays closed; an open one delivers nothing after an \<open>error\<close> or a \<open>complete\<close>, and
  is closed once it has delivered one.\<close>

definition received :: "'a state \<Rightarrow> 'a state \<Rightarrow> 'a event list" where
  "received s t = map snd (drop (length (out s)) (out t))"

fun contract :: "bool \<Rightarrow> 'a event list \<Rightarrow> bool \<Rightarrow> bool" where
  "contract True evs cl = (evs = [] \<and> cl)"
| "contract False [] cl = True"
| "contract False (ev # evs) cl = (if is_terminal ev then evs = [] \<and> cl else contract False evs cl)"

lemma contract_same: "contract cl [] cl"
  by (cases cl) simp_all

lemma contract_trans: "contract a xs b \<Longrightarrow> contract b ys c \<Longrightarrow> contract a (xs @ ys) c"
proof (cases a)
  case True
  assume "contract a xs b" "contract b ys c"
  with True show ?thesis by simp
next
  case False
  assume "contract a xs b" "contract b ys c"
  with False have "contract False xs b" by simp
  from this \<open>contract b ys c\<close> have "contract False (xs @ ys) c"
  proof (induction xs)
    case Nil
    then show ?case by (cases b) simp_all
  next
    case (Cons x xs)
    then show ?case by (cases "is_terminal x") auto
  qed
  with False show ?thesis by simp
qed

text \<open>The steps of a run keep the number of flags and controllers, never reset an
  \<open>aborted\<close> flag, and extend what the observer has received within the contract.\<close>

definition continues :: "nat \<Rightarrow> 'a obs_spec \<Rightarrow> 'a state \<Rightarrow> 'a state \<Rightarrow> bool" where
  "continues k ob s t =
     (length (closed t) = length (closed s) \<and> length (ctrls t) = length (ctrls s)
      \<and> (\<forall>d. is_aborted d s \<longrightarrow> is_aborted d t)
      \<and> (\<exists>evs. out t = out s @ map (Pair (name ob)) evs
             \<and> contract (is_closed k s) evs (is_closed k t)))"

lemma continuesI:
  "length (closed t) = length (closed s) \<Longrightarrow> length (ctrls t) = length (ctrls s) \<Longrightarrow>
   (\<And>d. is_aborted d s \<Longrightarrow> is_aborted d t) \<Longrightarrow>
   out t = out s @ map (Pair (name ob)) evs \<Longrightarrow>
   contract (is_closed k s) evs (is_closed k t) \<Longrightarrow> continues k ob s t"
  unfolding continues_def by blast

lemma continues_frame:
  assumes "closed t = closed s" "out t = out s" "length (ctrls t) = length (ctrls s)"
    and "\<And>d. is_aborted d s \<Longrightarrow> is_aborted d t"
  shows "continues k ob s t"
proof (rule continuesI [where evs = "[]"])
  show "contract (is_closed k s) [] (is_closed k t)"
    using assms(1) by (simp add: is_closed_def contract_same)
qed (use assms in simp_all)

lemma continues_trans:
  assumes "continues k ob s t" and "continues k ob t u"
  shows "continues k ob s u"
proof -
  from assms(1) obtain xs where xs: "out t = out s @ map (Pair (name ob)) xs"
    "contract (is_closed k s) xs (is_closed k t)" unfolding continues_def by blast
  from assms(2) obtain ys where ys: "out u = out t @ map (Pair (name ob)) ys"
    "contract (is_closed k t) ys (is_closed k u)" unfolding continues_def by blast
  show ?thesis
  proof (rule continuesI [where evs = "xs @ ys"])
    show "contract (is_closed k s) (xs @ ys) (is_closed k u)"
      using xs(2) ys(2) by (rule contract_trans)
    show "out u = out s @ map (Pair (name ob)) (xs @ ys)" using xs(1) ys(1) by simp
  qed (use assms in \<open>auto simp: continues_def\<close>)
qed

lemma continues_caught: "continues k ob s (caught s)"
  by (rule continues_frame) (simp_all add: caught_def is_aborted_def)

lemma continues_thrown: "continues k ob s (s\<lparr>thrown := b\<rparr>)"
  by (rule continues_frame) (simp_all add: is_aborted_def)

lemma continues_abort: "continues k ob s (abort c s)"
  by (rule continues_frame) (simp_all add: abort_is_aborted_mono)

lemma continues_unless_thrown_abort: "continues k ob s (unless_thrown (abort c) s)"
  by (rule continues_frame) (simp_all add: unless_thrown_def abort_is_aborted_mono)

lemma continues_hostReportError: "continues k ob s (hostReportError e s)"
  by (rule continues_frame) (simp_all add: hostReportError_def is_aborted_def)

lemma continues_set_closed: "k < length (closed s) \<Longrightarrow> continues k ob s (set_closed k s)"
  by (rule continuesI [where evs = "[]"])
     (cases "is_closed k s"; simp add: set_closed_def is_aborted_def is_closed_def)+

lemma continues_next:
  assumes "\<not> is_closed k s"
  shows "continues k ob s (s\<lparr>out := out s @ [(name ob, Next v)]\<rparr>)"
proof (rule continuesI [where evs = "[Next v]"])
  have "is_closed k (s\<lparr>out := out s @ [(name ob, Next v)]\<rparr>) = is_closed k s"
    by (simp add: is_closed_def)
  with assms show "contract (is_closed k s) [Next v]
      (is_closed k (s\<lparr>out := out s @ [(name ob, Next v)]\<rparr>))" by simp
qed (simp_all add: is_aborted_def)

lemma continues_terminal:
  assumes "k < length (closed s)" and "\<not> is_closed k s" and "is_terminal ev"
  shows "continues k ob s ((set_closed k s)\<lparr>out := out (set_closed k s) @ [(name ob, ev)]\<rparr>)"
proof (rule continuesI [where evs = "[ev]"])
  have "is_closed k ((set_closed k s)\<lparr>out := out (set_closed k s) @ [(name ob, ev)]\<rparr>)"
    using assms(1) by (simp add: is_closed_def set_closed_def)
  with assms show "contract (is_closed k s) [ev]
      (is_closed k ((set_closed k s)\<lparr>out := out (set_closed k s) @ [(name ob, ev)]\<rparr>))" by simp
qed (simp_all add: is_aborted_def set_closed_def)

lemma continues_fold:
  assumes "\<And>a x. a \<in> set as \<Longrightarrow> k < length (closed x) \<Longrightarrow> continues k ob x (f a x)"
    and "k < length (closed s)"
  shows "continues k ob s (fold f as s)"
  using assms
proof (induction as arbitrary: s)
  case Nil
  show ?case by (simp add: continues_frame)
next
  case (Cons a as)
  have 1: "continues k ob s (f a s)" using Cons.prems by simp
  then have "k < length (closed (f a s))" using Cons.prems(2) by (simp add: continues_def)
  with Cons have "continues k ob (f a s) (fold f as (f a s))" by simp
  with 1 show ?case using continues_trans by fastforce
qed


lemma perform_closed: "is_closed k s \<Longrightarrow> perform k c ob (Call ev acts thr) s = s"
  by (cases ev)
     (simp_all add: call_def SafeSubscriber_def SafeSubscriber_next_def SafeSubscriber_error_def
        SafeSubscriber_complete_def)

lemma perform_next:
  "\<not> is_closed k s \<Longrightarrow>
   perform k c ob (Call (Next v) acts thr) s =
     (if has_next ob
      then (performs k c ob acts (s\<lparr>out := out s @ [(name ob, Next v)]\<rparr>))\<lparr>thrown := thr\<rparr>
      else s)"
  by (simp add: call_def SafeSubscriber_def SafeSubscriber_next_def scripted_def performs_def)

lemma perform_error:
  "\<not> is_closed k s \<Longrightarrow>
   perform k c ob (Call (Error e) acts thr) s =
     unless_thrown (abort c)
       (if has_error ob
        then (performs k c ob acts
                ((set_closed k s)\<lparr>out := out (set_closed k s) @ [(name ob, Error e)]\<rparr>))
             \<lparr>thrown := thr\<rparr>
        else hostReportError e (set_closed k s))"
  by (simp add: call_def SafeSubscriber_def SafeSubscriber_error_def scripted_def performs_def)

lemma perform_complete:
  "\<not> is_closed k s \<Longrightarrow>
   perform k c ob (Call Complete acts thr) s =
     unless_thrown (abort c)
       (if has_complete ob
        then (performs k c ob acts
                ((set_closed k s)\<lparr>out := out (set_closed k s) @ [(name ob, Complete)]\<rparr>))
             \<lparr>thrown := thr\<rparr>
        else set_closed k s)"
  by (simp add: call_def SafeSubscriber_def SafeSubscriber_complete_def scripted_def performs_def)

declare perform.simps(1) [simp del]

lemma continues_length: "continues k ob s t \<Longrightarrow> length (closed t) = length (closed s)"
  by (simp add: continues_def)

lemma performs_continues_if:
  assumes "\<And>a x. a \<in> set acts \<Longrightarrow> k < length (closed (caught x)) \<Longrightarrow>
             continues k ob (caught x) (perform k c ob a (caught x))"
    and "k < length (closed u)"
  shows "continues k ob u (performs k c ob acts u)"
  unfolding performs_def
proof (rule continues_fold)
  fix a and x :: "'a state"
  assume "a \<in> set acts" "k < length (closed x)"
  with assms(1) [of a x] have "continues k ob (caught x) (perform k c ob a (caught x))"
    by (simp add: caught_def)
  with continues_caught [of k ob x] show "continues k ob x (perform k c ob a (caught x))"
    by (rule continues_trans)
qed (rule assms(2))

lemma perform_continues:
  "k < length (closed s) \<Longrightarrow> continues k ob s (perform k c ob a s)"
proof (induction k c ob a s rule: perform.induct)
  case (1 k c ob ev acts thr s)
  have nested: "continues k ob u (performs k c ob acts u)" if "k < length (closed u)" for u
  proof (rule performs_continues_if)
    fix a and x :: "'a state"
    assume "a \<in> set acts" "k < length (closed (caught x))"
    then show "continues k ob (caught x) (perform k c ob a (caught x))"
      using "1.IH" [of a x] by simp
  qed (rule that)
  show ?case
  proof (cases "is_closed k s")
    case True
    then show ?thesis by (simp add: perform_closed continues_frame)
  next
    case False
    let ?s1 = "set_closed k s"
    have l1: "k < length (closed ?s1)" using "1.prems" by (simp add: set_closed_def)
    show ?thesis
    proof (cases ev)
      case (Next v)
      let ?u = "s\<lparr>out := out s @ [(name ob, Next v)]\<rparr>"
      have "continues k ob s ?u" using False by (rule continues_next)
      moreover have "continues k ob ?u (performs k c ob acts ?u)"
        using "1.prems" by (intro nested) simp
      moreover have "continues k ob (performs k c ob acts ?u) ((performs k c ob acts ?u)\<lparr>thrown := thr\<rparr>)"
        by (rule continues_thrown)
      ultimately have "continues k ob s ((performs k c ob acts ?u)\<lparr>thrown := thr\<rparr>)"
        using continues_trans by blast
      with False Next show ?thesis by (simp add: perform_next continues_frame)
    next
      case (Error e)
      let ?u = "?s1\<lparr>out := out ?s1 @ [(name ob, Error e)]\<rparr>"
      let ?w = "if has_error ob then (performs k c ob acts ?u)\<lparr>thrown := thr\<rparr>
                else hostReportError e ?s1"
      have "continues k ob s ?w"
      proof (cases "has_error ob")
        case True
        have "continues k ob s ?u" using "1.prems" False by (intro continues_terminal) simp_all
        moreover have "continues k ob ?u (performs k c ob acts ?u)"
          using l1 by (intro nested) simp
        moreover have "continues k ob (performs k c ob acts ?u) ((performs k c ob acts ?u)\<lparr>thrown := thr\<rparr>)"
          by (rule continues_thrown)
        ultimately have "continues k ob s ((performs k c ob acts ?u)\<lparr>thrown := thr\<rparr>)"
          using continues_trans by blast
        with True show ?thesis by simp
      next
        case no: False
        have "continues k ob s ?s1" using "1.prems" by (rule continues_set_closed)
        moreover have "continues k ob ?s1 (hostReportError e ?s1)" by (rule continues_hostReportError)
        ultimately have "continues k ob s (hostReportError e ?s1)" by (rule continues_trans)
        with no show ?thesis by simp
      qed
      moreover have "continues k ob ?w (unless_thrown (abort c) ?w)"
        by (rule continues_unless_thrown_abort)
      ultimately have "continues k ob s (unless_thrown (abort c) ?w)" by (rule continues_trans)
      with False Error show ?thesis by (simp add: perform_error)
    next
      case Complete
      let ?u = "?s1\<lparr>out := out ?s1 @ [(name ob, Complete)]\<rparr>"
      let ?w = "if has_complete ob then (performs k c ob acts ?u)\<lparr>thrown := thr\<rparr> else ?s1"
      have "continues k ob s ?w"
      proof (cases "has_complete ob")
        case True
        have "continues k ob s ?u" using "1.prems" False by (intro continues_terminal) simp_all
        moreover have "continues k ob ?u (performs k c ob acts ?u)"
          using l1 by (intro nested) simp
        moreover have "continues k ob (performs k c ob acts ?u) ((performs k c ob acts ?u)\<lparr>thrown := thr\<rparr>)"
          by (rule continues_thrown)
        ultimately have "continues k ob s ((performs k c ob acts ?u)\<lparr>thrown := thr\<rparr>)"
          using continues_trans by blast
        with True show ?thesis by simp
      next
        case no: False
        have "continues k ob s ?s1" using "1.prems" by (rule continues_set_closed)
        with no show ?thesis by simp
      qed
      moreover have "continues k ob ?w (unless_thrown (abort c) ?w)"
        by (rule continues_unless_thrown_abort)
      ultimately have "continues k ob s (unless_thrown (abort c) ?w)" by (rule continues_trans)
      with False Complete show ?thesis by (simp add: perform_complete)
    qed
  qed
next
  case (2 k c ob n s)
  show ?case by (simp add: continues_abort)
qed

lemma performs_continues:
  "k < length (closed s) \<Longrightarrow> continues k ob s (performs k c ob acts s)"
  by (rule performs_continues_if) (simp_all add: perform_continues caught_def)


lemma continues_received:
  assumes "continues k ob s t"
  shows "out t = out s @ map (Pair (name ob)) (received s t)"
    and "contract (is_closed k s) (received s t) (is_closed k t)"
proof -
  from assms obtain evs where evs: "out t = out s @ map (Pair (name ob)) evs"
    "contract (is_closed k s) evs (is_closed k t)" unfolding continues_def by blast
  then have "received s t = evs" by (simp add: received_def comp_def)
  with evs show "out t = out s @ map (Pair (name ob)) (received s t)"
    and "contract (is_closed k s) (received s t) (is_closed k t)" by simp_all
qed

lemma continues_closed:
  assumes "continues k ob s t" and "is_closed k s"
  shows "is_closed k t" and "out t = out s"
proof -
  from assms obtain evs where evs: "out t = out s @ map (Pair (name ob)) evs"
    "contract True evs (is_closed k t)" unfolding continues_def by auto
  then show "is_closed k t" and "out t = out s" by simp_all
qed

lemma contract_one_terminal: "contract cl evs cl' \<Longrightarrow> length (filter is_terminal evs) \<le> 1"
proof (cases cl)
  case True
  assume "contract cl evs cl'"
  with True show ?thesis by simp
next
  case False
  assume "contract cl evs cl'"
  with False have "contract False evs cl'" by simp
  then show ?thesis by (induction evs) (auto split: if_splits)
qed

text \<open>What a call that reaches the handler leaves behind, up to the statement that
  follows the handler's return.\<close>

lemma perform_terminal:
  assumes op: "\<not> is_closed k s" and k: "k < length (closed s)" and te: "is_terminal ev"
  shows "\<exists>w. perform k c ob (Call ev acts thr) s = unless_thrown (abort c) w
           \<and> continues k ob s w \<and> is_closed k w
           \<and> thrown w = (if present ob ev then thr else thrown s)
           \<and> (present ob ev \<longrightarrow>
                 take (Suc (length (out s))) (out w) = out s @ [(name ob, ev)])"
proof -
  let ?s1 = "set_closed k s"
  let ?u = "?s1\<lparr>out := out ?s1 @ [(name ob, ev)]\<rparr>"
  let ?v = "(performs k c ob acts ?u)\<lparr>thrown := thr\<rparr>"
  have cu: "continues k ob s ?u" using k op te by (rule continues_terminal)
  have ku: "k < length (closed ?u)" using k by (simp add: set_closed_def)
  then have cv0: "continues k ob ?u (performs k c ob acts ?u)" by (rule performs_continues)
  have clu: "is_closed k ?u" using k by (simp add: is_closed_def set_closed_def)
  from continues_closed [OF cv0 clu]
  have cl: "is_closed k (performs k c ob acts ?u)" and o: "out (performs k c ob acts ?u) = out ?u" .
  have "continues k ob s (performs k c ob acts ?u)" using cu cv0 by (rule continues_trans)
  then have cv: "continues k ob s ?v"
    using continues_thrown [of k ob "performs k c ob acts ?u" thr] by (rule continues_trans)
  have clv: "is_closed k ?v" using cl by (simp add: is_closed_def)
  have ov: "take (Suc (length (out s))) (out ?v) = out s @ [(name ob, ev)]"
    using o by (simp add: set_closed_def)
  have c1: "continues k ob s ?s1" using k by (rule continues_set_closed)
  have cl1: "is_closed k ?s1" using k by (simp add: is_closed_def set_closed_def)
  define P where "P w \<longleftrightarrow>
      perform k c ob (Call ev acts thr) s = unless_thrown (abort c) w
      \<and> continues k ob s w \<and> is_closed k w
      \<and> thrown w = (if present ob ev then thr else thrown s)
      \<and> (present ob ev \<longrightarrow> take (Suc (length (out s))) (out w) = out s @ [(name ob, ev)])" for w
  have "\<exists>w. P w"
  proof (cases ev)
    case (Next v)
    with te show ?thesis by simp
  next
    case (Error e)
    show ?thesis
    proof (cases "has_error ob")
      case True
      have "P ?v" unfolding P_def
      proof (intro conjI impI)
        show "perform k c ob (Call ev acts thr) s = unless_thrown (abort c) ?v"
          using Error op True by (simp add: perform_error)
        show "continues k ob s ?v" by (rule cv)
        show "is_closed k ?v" by (rule clv)
        show "thrown ?v = (if present ob ev then thr else thrown s)" using Error True by simp
        show "take (Suc (length (out s))) (out ?v) = out s @ [(name ob, ev)]" by (rule ov)
      qed
      then show ?thesis by blast
    next
      case False
      have "continues k ob s (hostReportError e ?s1)"
        using c1 continues_hostReportError by (rule continues_trans)
      moreover have "is_closed k (hostReportError e ?s1)"
        using cl1 by (simp add: is_closed_def hostReportError_def)
      moreover have "thrown (hostReportError e ?s1) = thrown s"
        by (simp add: hostReportError_def set_closed_def)
      ultimately have "P (hostReportError e ?s1)"
        unfolding P_def using False Error op by (simp add: perform_error)
      then show ?thesis by blast
    qed
  next
    case Complete
    show ?thesis
    proof (cases "has_complete ob")
      case True
      have "P ?v" unfolding P_def
      proof (intro conjI impI)
        show "perform k c ob (Call ev acts thr) s = unless_thrown (abort c) ?v"
          using Complete op True by (simp add: perform_complete)
        show "continues k ob s ?v" by (rule cv)
        show "is_closed k ?v" by (rule clv)
        show "thrown ?v = (if present ob ev then thr else thrown s)" using Complete True by simp
        show "take (Suc (length (out s))) (out ?v) = out s @ [(name ob, ev)]" by (rule ov)
      qed
      then show ?thesis by blast
    next
      case False
      have "thrown ?s1 = thrown s" by (simp add: set_closed_def)
      with c1 cl1 False Complete op have "P ?s1" unfolding P_def by (simp add: perform_complete)
      then show ?thesis by blast
    qed
  qed
  then show ?thesis unfolding P_def .
qed


lemma perform_delivers:
  assumes op: "\<not> is_closed k s" and k: "k < length (closed s)" and pr: "present ob ev"
  shows "take (Suc (length (out s))) (out (perform k c ob (Call ev acts thr) s))
           = out s @ [(name ob, ev)]"
proof (cases "is_terminal ev")
  case True
  from perform_terminal [OF op k True, of c ob acts thr] pr
  obtain w where "perform k c ob (Call ev acts thr) s = unless_thrown (abort c) w"
    "take (Suc (length (out s))) (out w) = out s @ [(name ob, ev)]" by blast
  then show ?thesis by (simp add: unless_thrown_def)
next
  case False
  then obtain v where ev: "ev = Next v" by (cases ev) auto
  let ?u = "s\<lparr>out := out s @ [(name ob, Next v)]\<rparr>"
  have "continues k ob ?u (performs k c ob acts ?u)" using k by (intro performs_continues) simp
  then obtain evs where "out (performs k c ob acts ?u) = out ?u @ map (Pair (name ob)) evs"
    unfolding continues_def by blast
  with ev pr op show ?thesis by (simp add: perform_next)
qed

lemma perform_closes:
  assumes "\<not> is_closed k s" and "k < length (closed s)" and "is_terminal ev"
  shows "is_closed k (perform k c ob (Call ev acts thr) s)"
proof -
  from perform_terminal [OF assms, of c ob acts thr]
  obtain w where "perform k c ob (Call ev acts thr) s = unless_thrown (abort c) w" "is_closed k w"
    by blast
  then show ?thesis by (simp add: unless_thrown_def is_closed_def)
qed

lemma perform_aborts:
  assumes "\<not> is_closed k s" and "k < length (closed s)" and "is_terminal ev"
    and c: "c < length (ctrls s)" and nt: "\<not> thrown s" and ret: "present ob ev \<longrightarrow> \<not> thr"
  shows "is_aborted c (perform k c ob (Call ev acts thr) s)"
proof -
  from perform_terminal [OF assms(1-3), of c ob acts thr]
  obtain w where w: "perform k c ob (Call ev acts thr) s = unless_thrown (abort c) w"
    "continues k ob s w" "thrown w = (if present ob ev then thr else thrown s)"
    by blast
  from w(3) nt ret have "\<not> thrown w" by auto
  moreover from w(2) c have "c < length (ctrls w)" by (simp add: continues_def)
  ultimately show ?thesis using w(1) by (simp add: unless_thrown_def abort_aborts)
qed

lemma perform_throws:
  assumes "\<not> is_closed k s" and "is_terminal ev" and "present ob ev"
  shows "ctrls (perform k c ob (Call ev [] True) s) = ctrls s"
  using assms
  by (cases ev)
     (simp_all add: perform_error perform_complete performs_def unless_thrown_def set_closed_def)

text \<open>The subscriber that \<open>subscribe\<close> creates and passes to the subscription procedure
  has a flag and a controller of its own, both new, and is open.\<close>

lemma subscribe_creates:
  fixes s :: "'a state" and signal :: "nat option"
  defines "s' \<equiv> snd (new_closed (case signal of
                       Some p \<Rightarrow> chainAbort p (length (ctrls s)) (snd (new_controller s))
                     | None \<Rightarrow> snd (new_controller s)))"
  shows "subscribe (Observable procedure) d signal s =
           procedure (SafeSubscriber (length (closed s)) (length (ctrls s)) d) (length (ctrls s)) s'"
    and "length (closed s) < length (closed s')" and "length (ctrls s) < length (ctrls s')"
    and "\<not> is_closed (length (closed s)) s'" and "thrown s' = thrown s"
  unfolding s'_def
  by (cases signal;
      simp add: subscribe_def new_controller_def new_closed_def chainAbort_def
        addEventListener_def Let_def is_closed_def)+



text \<open>The state in which \<open>subscribe\<close> has created controller 0 and the SafeSubscriber
  with flag 0, for a producer that has not emitted yet.\<close>

definition fresh_subscription :: "int state" where
  "fresh_subscription = subscribe deferred (user_observer (collector 7)) None init_state"

lemmas contract_on_state = call_def perform.simps

lemmas eval_contract = contract_on_state [where s = "\<lparr>ctrls = cs, next_lid = nl, fired = fi,
     closed = cl, heap = hp, subscribers = sb, subject_closed = sc, out = ou, reported = rp,
     thrown = th\<rparr>"] scripted_def performs_def received_def deferred_def fresh_subscription_def
  for cs nl fi cl hp sb sc ou rp th




section \<open>Subject\<close>

text \<open>
  \<open>_subscribers\<close> holds the SafeSubscribers that \<open>subscribe\<close> created for the observers of
  the Subject, in registration order; \<open>entry_subscriber\<close> is the object an element
  stands for.
\<close>

definition entry_subscriber :: "'a entry \<Rightarrow> 'a subscriber" where
  "entry_subscriber x = SafeSubscriber (e_sid x) (e_ctrl x) (user_observer (e_obs x))"

text \<open>The subscription procedure the constructor passes to \<open>super\<close>: it pushes the
  subscriber and registers, on the subscription's signal, the handler that splices it
  out.\<close>

definition Subject_init :: "'a entry \<Rightarrow> nat \<Rightarrow> 'a state \<Rightarrow> 'a state" where
  "Subject_init subscriber signal s =
     (let s1 = s\<lparr>subscribers := subscribers s @ [subscriber]\<rparr>;
          handler = next_lid s1;
          s2 = s1\<lparr>next_lid := Suc handler\<rparr>
      in addEventListener signal handler (Unregister (e_sid subscriber)) s2)"

text \<open>\<open>subject.subscribe(observer, signal?)\<close>: the steps of \<open>Observable.subscribe\<close>, then
  the procedure above.\<close>

definition Subject_subscribe :: "'a obs_spec \<Rightarrow> nat option \<Rightarrow> 'a state \<Rightarrow> 'a state" where
  "Subject_subscribe ob signal s =
     (let (abortController, s1) = new_controller s;
          s2 = (case signal of Some p \<Rightarrow> chainAbort p abortController s1 | None \<Rightarrow> s1);
          (k, s3) = new_closed s2
      in Subject_init \<lparr>e_sid = k, e_ctrl = abortController, e_obs = ob\<rparr> abortController s3)"

lemma notify_length_subscribers:
  "length (subscribers (notify ob ev s)) \<le> length (subscribers s)"
  using fold_abort_length_subscribers [of "react ob ev" "s\<lparr>out := out s @ [(name ob, ev)]\<rparr>"]
  by (simp add: notify_def Let_def)

lemma entry_next_length_subscribers:
  "length (subscribers (s_next (entry_subscriber x) v s)) \<le> length (subscribers s)"
  by (simp add: entry_subscriber_def SafeSubscriber_def SafeSubscriber_next_def user_observer_def
        notify_length_subscribers)

lemma entry_error_length_subscribers:
  "length (subscribers (s_error (entry_subscriber x) e s)) \<le> length (subscribers s)"
proof (cases "is_closed (e_sid x) s")
  case True
  then show ?thesis
    by (simp add: entry_subscriber_def SafeSubscriber_def SafeSubscriber_error_def)
next
  case False
  let ?s1 = "set_closed (e_sid x) s"
  let ?s2 = "case on_error (user_observer (e_obs x)) of
               Some f \<Rightarrow> f e ?s1 | None \<Rightarrow> hostReportError e ?s1"
  have "length (subscribers ?s2) \<le> length (subscribers ?s1)"
    using notify_length_subscribers [of "e_obs x" "Error e" ?s1]
    by (simp add: user_observer_def hostReportError_def)
  moreover have "length (subscribers (unless_thrown (abort (e_ctrl x)) ?s2)) \<le> length (subscribers ?s2)"
    by (rule unless_thrown_abort_length_subscribers)
  moreover have "subscribers ?s1 = subscribers s" by (simp add: set_closed_def)
  ultimately show ?thesis using False
    by (simp add: entry_subscriber_def SafeSubscriber_def SafeSubscriber_error_def)
qed

lemma entry_complete_length_subscribers:
  "length (subscribers (s_complete (entry_subscriber x) s)) \<le> length (subscribers s)"
proof (cases "is_closed (e_sid x) s")
  case True
  then show ?thesis
    by (simp add: entry_subscriber_def SafeSubscriber_def SafeSubscriber_complete_def)
next
  case False
  let ?s1 = "set_closed (e_sid x) s"
  let ?s2 = "case on_complete (user_observer (e_obs x)) of
               Some f \<Rightarrow> f ?s1 | None \<Rightarrow> ?s1"
  have "length (subscribers ?s2) \<le> length (subscribers ?s1)"
    using notify_length_subscribers [of "e_obs x" Complete ?s1]
    by (simp add: user_observer_def)
  moreover have "length (subscribers (unless_thrown (abort (e_ctrl x)) ?s2)) \<le> length (subscribers ?s2)"
    by (rule unless_thrown_abort_length_subscribers)
  moreover have "subscribers ?s1 = subscribers s" by (simp add: set_closed_def)
  ultimately show ?thesis using False
    by (simp add: entry_subscriber_def SafeSubscriber_def SafeSubscriber_complete_def)
qed

text \<open>\<open>next(value)\<close>: \<open>for (const subscriber of this._subscribers) subscriber.next(value)\<close>.
  The array iterator keeps an index into the array itself, not into a copy: each step
  reads the length and the element at the index from the array as it is then. An
  exception of a subscriber's method leaves the loop, here and in the two loops below.\<close>

function next_loop :: "'a \<Rightarrow> nat \<Rightarrow> 'a state \<Rightarrow> 'a state" where
  "next_loop v i s =
     (if i < length (subscribers s)
      then let s' = s_next (entry_subscriber (subscribers s ! i)) v s
           in if thrown s' then s' else next_loop v (Suc i) s'
      else s)"
  by pat_completeness auto
termination
proof (relation "measure (\<lambda>(v, i, s). length (subscribers s) - i)")
  show "wf (measure (\<lambda>(v, i, s). length (subscribers s) - i))" by simp
next
  fix v :: 'a and i :: nat and s s' :: "'a state"
  assume "i < length (subscribers s)"
    and "s' = s_next (entry_subscriber (subscribers s ! i)) v s"
  with entry_next_length_subscribers [of "subscribers s ! i" v s]
  show "((v, Suc i, s'), (v, i, s)) \<in> measure (\<lambda>(v, i, s). length (subscribers s) - i)"
    by simp
qed

definition Subject_next :: "'a \<Rightarrow> 'a state \<Rightarrow> 'a state" where
  "Subject_next v s = (if \<not> subject_closed s then next_loop v 0 s else s)"

text \<open>\<open>error(err)\<close> and \<open>complete()\<close>:
  \<open>while (this._subscribers.length > 0) this._subscribers.shift()!.error(err)\<close>.\<close>

function drain_error :: "'a \<Rightarrow> 'a state \<Rightarrow> 'a state" where
  "drain_error err s =
     (case subscribers s of
        [] \<Rightarrow> s
      | x # xs \<Rightarrow>
          let s' = s_error (entry_subscriber x) err (s\<lparr>subscribers := xs\<rparr>)
          in if thrown s' then s' else drain_error err s')"
  by pat_completeness auto
termination
proof (relation "measure (\<lambda>(err, s). length (subscribers s))")
  show "wf (measure (\<lambda>(err, s). length (subscribers s)))" by simp
next
  fix err :: 'a and s s' :: "'a state" and x xs
  assume "subscribers s = x # xs"
    and "s' = s_error (entry_subscriber x) err (s\<lparr>subscribers := xs\<rparr>)"
  with entry_error_length_subscribers [of x err "s\<lparr>subscribers := xs\<rparr>"]
  show "((err, s'), (err, s)) \<in> measure (\<lambda>(err, s). length (subscribers s))"
    by simp
qed

definition Subject_error :: "'a \<Rightarrow> 'a state \<Rightarrow> 'a state" where
  "Subject_error err s =
     (if \<not> subject_closed s then drain_error err (s\<lparr>subject_closed := True\<rparr>) else s)"

function drain_complete :: "'a state \<Rightarrow> 'a state" where
  "drain_complete s =
     (case subscribers s of
        [] \<Rightarrow> s
      | x # xs \<Rightarrow>
          let s' = s_complete (entry_subscriber x) (s\<lparr>subscribers := xs\<rparr>)
          in if thrown s' then s' else drain_complete s')"
  by pat_completeness auto
termination
proof (relation "measure (\<lambda>s. length (subscribers s))")
  show "wf (measure (\<lambda>s. length (subscribers s)))" by simp
next
  fix s s' :: "'a state" and x xs
  assume "subscribers s = x # xs"
    and "s' = s_complete (entry_subscriber x) (s\<lparr>subscribers := xs\<rparr>)"
  with entry_complete_length_subscribers [of x "s\<lparr>subscribers := xs\<rparr>"]
  show "(s', s) \<in> measure (\<lambda>s. length (subscribers s))"
    by simp
qed

definition Subject_complete :: "'a state \<Rightarrow> 'a state" where
  "Subject_complete s =
     (if \<not> subject_closed s then drain_complete (s\<lparr>subject_closed := True\<rparr>) else s)"

definition unsubscribing_observer :: "int obs_spec" where
  "unsubscribing_observer = \<lparr>name = 0, has_next = True, has_error = True, has_complete = True,
     react = (\<lambda>ev. [0]), raises = (\<lambda>ev. False)\<rparr>"

definition two_subscribers :: "int state" where
  "two_subscribers =
     Subject_subscribe (collector 1) None
       (Subject_subscribe unsubscribing_observer (Some 0) (snd (new_controller init_state)))"

declare next_loop.simps [simp del] drain_error.simps [simp del] drain_complete.simps [simp del]

lemmas Subject_on_state = next_loop.simps drain_error.simps drain_complete.simps
  Subject_next_def Subject_error_def Subject_complete_def Subject_init_def Subject_subscribe_def

lemmas eval_Subject = Subject_on_state [where s = "\<lparr>ctrls = cs, next_lid = nl, fired = fi,
     closed = cl, heap = hp, subscribers = sb, subject_closed = sc, out = ou, reported = rp, thrown = th\<rparr>"]
  for cs nl fi cl hp sb sc ou rp th

text \<open>
  C8. A Subject with two subscribers, registered in the order 0, 1. Observer 0
  subscribed with the signal of a controller of its own (controller 0) and aborts it
  in its handlers, which is how a subscriber unregisters; observer 1 only records.
  \<open>next(5)\<close> reaches observer 0, whose abort splices it out of \<open>_subscribers\<close> while
  the \<open>for ... of\<close> loop is at index 0; the loop goes on at index 1 of the array
  that is now one element long and ends. Observer 1, registered when \<open>next\<close> was called,
  never receives 5.
\<close>

theorem Subject_next_skips_subscriber:
  "map (\<lambda>x. name (e_obs x)) (subscribers two_subscribers) = [0, 1]
   \<and> subject_closed two_subscribers = False
   \<and> out (Subject_next 5 two_subscribers) = [(0, Next 5)]"
  by (simp add: two_subscribers_def unsubscribing_observer_def eval_defs eval_Subject
        entry_subscriber_def)

text \<open>The terminal events take each subscriber off the array before they deliver, and
  reach both observers in the same situation.\<close>

lemma Subject_complete_reaches_both:
  "out (Subject_complete two_subscribers) = [(0, Complete), (1, Complete)]
   \<and> out (Subject_error 9 two_subscribers) = [(0, Error 9), (1, Error 9)]
   \<and> out (Subject_next 6 (Subject_complete two_subscribers)) = [(0, Complete), (1, Complete)]"
  by (simp add: two_subscribers_def unsubscribing_observer_def eval_defs eval_Subject
        entry_subscriber_def)

section \<open>The flattening operators\<close>

text \<open>
  \<open>subscribe_deferred\<close> is what \<open>subscribe\<close> does for a deferred Observable when a signal
  is passed: it returns the \<open>_closed\<close> flag and the controller of the new SafeSubscriber.
\<close>

definition subscribe_deferred :: "nat \<Rightarrow> 'a state \<Rightarrow> (nat \<times> nat) \<times> 'a state" where
  "subscribe_deferred signal s =
     (let (abortController, s1) = new_controller s;
          s2 = chainAbort signal abortController s1;
          (k, s3) = new_closed s2
      in ((k, abortController), s3))"

lemma subscribe_deferred:
  "subscribe deferred observer (Some signal) s = snd (subscribe_deferred signal s)"
  by (simp add: subscribe_def subscribe_deferred_def deferred_def split_def Let_def)

subsection \<open>\<open>mergeMap\<close>\<close>

definition mergeMap_inner_complete :: "'a subscriber \<Rightarrow> nat \<Rightarrow> nat \<Rightarrow> 'a state \<Rightarrow> 'a state" where
  "mergeMap_inner_complete subscriber active outerComplete s =
     (let s' = set_cell active (Num (get_num active s - 1)) s
      in if get_flag outerComplete s' \<and> get_num active s' = 0
         then s_complete subscriber s' else s')"

definition mergeMap_inner_observer :: "'a subscriber \<Rightarrow> nat \<Rightarrow> nat \<Rightarrow> 'a observer" where
  "mergeMap_inner_observer subscriber active outerComplete =
     \<lparr>on_next = Some (s_next subscriber),
      on_error = Some (s_error subscriber),
      on_complete = Some (mergeMap_inner_complete subscriber active outerComplete)\<rparr>"

definition mergeMap_next ::
  "('a \<Rightarrow> int \<Rightarrow> 'a + 'a observable) \<Rightarrow> 'a subscriber \<Rightarrow> nat \<Rightarrow> nat \<Rightarrow> nat \<Rightarrow> nat \<Rightarrow>
   'a \<Rightarrow> 'a state \<Rightarrow> 'a state" where
  "mergeMap_next callback subscriber signal index active outerComplete value s =
     (let i = get_num index s;
          s' = set_cell index (Num (i + 1)) s
      in case callback value i of
           Inl err \<Rightarrow> s_error subscriber err s'
         | Inr result \<Rightarrow>
             subscribe result (mergeMap_inner_observer subscriber active outerComplete)
               (Some signal) (set_cell active (Num (get_num active s' + 1)) s'))"

definition mergeMap_complete :: "'a subscriber \<Rightarrow> nat \<Rightarrow> nat \<Rightarrow> 'a state \<Rightarrow> 'a state" where
  "mergeMap_complete subscriber active outerComplete s =
     (let s' = set_cell outerComplete (Flag True) s
      in if get_num active s' = 0 then s_complete subscriber s' else s')"

definition mergeMap_outer_observer ::
  "('a \<Rightarrow> int \<Rightarrow> 'a + 'a observable) \<Rightarrow> 'a subscriber \<Rightarrow> nat \<Rightarrow> nat \<Rightarrow> nat \<Rightarrow> nat \<Rightarrow>
   'a observer" where
  "mergeMap_outer_observer callback subscriber signal index active outerComplete =
     \<lparr>on_next = Some (mergeMap_next callback subscriber signal index active outerComplete),
      on_error = Some (s_error subscriber),
      on_complete = Some (mergeMap_complete subscriber active outerComplete)\<rparr>"

definition mergeMap_init ::
  "('a \<Rightarrow> int \<Rightarrow> 'a + 'a observable) \<Rightarrow> 'a observable \<Rightarrow> 'a subscriber \<Rightarrow> nat \<Rightarrow>
   'a state \<Rightarrow> 'a state" where
  "mergeMap_init callback this subscriber signal s =
     (let (index, s1) = alloc (Num 0) s;
          (active, s2) = alloc (Num 0) s1;
          (outerComplete, s3) = alloc (Flag False) s2
      in subscribe this
           (mergeMap_outer_observer callback subscriber signal index active outerComplete)
           (Some signal) s3)"

definition Observable_mergeMap ::
  "('a \<Rightarrow> int \<Rightarrow> 'a + 'a observable) \<Rightarrow> 'a observable \<Rightarrow> 'a observable" where
  "Observable_mergeMap callback this = Observable (mergeMap_init callback this)"

subsection \<open>\<open>concatMap\<close>\<close>

text \<open>
  \<open>checkSubscribe\<close> and the \<open>complete\<close> handler of the inner observer call each other
  through \<open>result.subscribe\<close>. The inner Observables of the model are deferred ones, so
  \<open>result.subscribe(..., signal)\<close> is \<open>subscribe_deferred signal\<close> and the handler is
  called later, by the producer of the inner; the callback returns \<open>Inr ()\<close> for such
  an Observable.
\<close>

definition checkSubscribe ::
  "('a \<Rightarrow> int \<Rightarrow> 'a + unit) \<Rightarrow> 'a subscriber \<Rightarrow> nat \<Rightarrow> nat \<Rightarrow> nat \<Rightarrow> 'a state \<Rightarrow> 'a state" where
  "checkSubscribe callback subscriber signal index buffer s =
     (case get_arr buffer s of
        [] \<Rightarrow> s
      | value # rest \<Rightarrow>
          (let s1 = set_cell buffer (Arr rest) s;
               i = get_num index s1;
               s2 = set_cell index (Num (i + 1)) s1
           in case callback value i of
                Inl err \<Rightarrow> s_error subscriber err s2
              | Inr result \<Rightarrow> snd (subscribe_deferred signal s2)))"

definition concatMap_inner_complete ::
  "('a \<Rightarrow> int \<Rightarrow> 'a + unit) \<Rightarrow> 'a subscriber \<Rightarrow> nat \<Rightarrow> nat \<Rightarrow> nat \<Rightarrow> nat \<Rightarrow>
   'a state \<Rightarrow> 'a state" where
  "concatMap_inner_complete callback subscriber signal index outerComplete buffer s =
     (if get_flag outerComplete s \<and> get_arr buffer s = []
      then s_complete subscriber s
      else checkSubscribe callback subscriber signal index buffer s)"

definition concatMap_inner_observer ::
  "('a \<Rightarrow> int \<Rightarrow> 'a + unit) \<Rightarrow> 'a subscriber \<Rightarrow> nat \<Rightarrow> nat \<Rightarrow> nat \<Rightarrow> nat \<Rightarrow> 'a observer" where
  "concatMap_inner_observer callback subscriber signal index outerComplete buffer =
     \<lparr>on_next = Some (s_next subscriber),
      on_error = Some (s_error subscriber),
      on_complete =
        Some (concatMap_inner_complete callback subscriber signal index outerComplete buffer)\<rparr>"

definition concatMap_next ::
  "('a \<Rightarrow> int \<Rightarrow> 'a + unit) \<Rightarrow> 'a subscriber \<Rightarrow> nat \<Rightarrow> nat \<Rightarrow> nat \<Rightarrow> 'a \<Rightarrow>
   'a state \<Rightarrow> 'a state" where
  "concatMap_next callback subscriber signal index buffer value s =
     checkSubscribe callback subscriber signal index buffer
       (set_cell buffer (Arr (get_arr buffer s @ [value])) s)"

definition concatMap_complete :: "'a subscriber \<Rightarrow> nat \<Rightarrow> nat \<Rightarrow> 'a state \<Rightarrow> 'a state" where
  "concatMap_complete subscriber outerComplete buffer s =
     (let s' = set_cell outerComplete (Flag True) s
      in if get_arr buffer s' = [] then s_complete subscriber s' else s')"

definition concatMap_outer_observer ::
  "('a \<Rightarrow> int \<Rightarrow> 'a + unit) \<Rightarrow> 'a subscriber \<Rightarrow> nat \<Rightarrow> nat \<Rightarrow> nat \<Rightarrow> nat \<Rightarrow> 'a observer" where
  "concatMap_outer_observer callback subscriber signal index outerComplete buffer =
     \<lparr>on_next = Some (concatMap_next callback subscriber signal index buffer),
      on_error = Some (s_error subscriber),
      on_complete = Some (concatMap_complete subscriber outerComplete buffer)\<rparr>"

definition concatMap_init ::
  "('a \<Rightarrow> int \<Rightarrow> 'a + unit) \<Rightarrow> 'a observable \<Rightarrow> 'a subscriber \<Rightarrow> nat \<Rightarrow>
   'a state \<Rightarrow> 'a state" where
  "concatMap_init callback this subscriber signal s =
     (let (index, s1) = alloc (Num 0) s;
          (outerComplete, s2) = alloc (Flag False) s1;
          (buffer, s3) = alloc (Arr []) s2
      in subscribe this
           (concatMap_outer_observer callback subscriber signal index outerComplete buffer)
           (Some signal) s3)"

definition Observable_concatMap ::
  "('a \<Rightarrow> int \<Rightarrow> 'a + unit) \<Rightarrow> 'a observable \<Rightarrow> 'a observable" where
  "Observable_concatMap callback this = Observable (concatMap_init callback this)"

subsection \<open>\<open>switchMap\<close>\<close>

definition switchMap_inner_complete :: "'a subscriber \<Rightarrow> nat \<Rightarrow> nat \<Rightarrow> 'a state \<Rightarrow> 'a state" where
  "switchMap_inner_complete subscriber outerComplete innerAbortController s =
     (let s' = set_cell innerAbortController (Ref None) s
      in if get_flag outerComplete s' then s_complete subscriber s' else s')"

definition switchMap_inner_observer :: "'a subscriber \<Rightarrow> nat \<Rightarrow> nat \<Rightarrow> 'a observer" where
  "switchMap_inner_observer subscriber outerComplete innerAbortController =
     \<lparr>on_next = Some (s_next subscriber),
      on_error = Some (s_error subscriber),
      on_complete = Some (switchMap_inner_complete subscriber outerComplete innerAbortController)\<rparr>"

text \<open>The \<open>next\<close> handler of the outer observer. The controller it creates and chains
  is kept in \<open>innerAbortController\<close>; the signal it passes to \<open>result.subscribe\<close> is
  \<open>signal\<close>, as the source has it.\<close>

definition switchMap_next ::
  "('a \<Rightarrow> int \<Rightarrow> 'a + 'a observable) \<Rightarrow> 'a subscriber \<Rightarrow> nat \<Rightarrow> nat \<Rightarrow> nat \<Rightarrow> nat \<Rightarrow>
   'a \<Rightarrow> 'a state \<Rightarrow> 'a state" where
  "switchMap_next callback subscriber signal index outerComplete innerAbortController value s =
     (let s1 = (case get_ref innerAbortController s of
                  Some c \<Rightarrow> set_cell innerAbortController (Ref None) (abort c s)
                | None \<Rightarrow> s);
          (c, s2) = new_controller s1;
          s3 = set_cell innerAbortController (Ref (Some c)) s2;
          s4 = chainAbort signal c s3;
          i = get_num index s4;
          s5 = set_cell index (Num (i + 1)) s4
      in case callback value i of
           Inl err \<Rightarrow> s_error subscriber err s5
         | Inr result \<Rightarrow>
             subscribe result
               (switchMap_inner_observer subscriber outerComplete innerAbortController)
               (Some signal) s5)"

definition switchMap_complete :: "'a subscriber \<Rightarrow> nat \<Rightarrow> nat \<Rightarrow> 'a state \<Rightarrow> 'a state" where
  "switchMap_complete subscriber outerComplete innerAbortController s =
     (let s' = set_cell outerComplete (Flag True) s
      in if get_ref innerAbortController s' = None then s_complete subscriber s' else s')"

definition switchMap_outer_observer ::
  "('a \<Rightarrow> int \<Rightarrow> 'a + 'a observable) \<Rightarrow> 'a subscriber \<Rightarrow> nat \<Rightarrow> nat \<Rightarrow> nat \<Rightarrow> nat \<Rightarrow>
   'a observer" where
  "switchMap_outer_observer callback subscriber signal index outerComplete innerAbortController =
     \<lparr>on_next =
        Some (switchMap_next callback subscriber signal index outerComplete innerAbortController),
      on_error = Some (s_error subscriber),
      on_complete = Some (switchMap_complete subscriber outerComplete innerAbortController)\<rparr>"

definition switchMap_init ::
  "('a \<Rightarrow> int \<Rightarrow> 'a + 'a observable) \<Rightarrow> 'a observable \<Rightarrow> 'a subscriber \<Rightarrow> nat \<Rightarrow>
   'a state \<Rightarrow> 'a state" where
  "switchMap_init callback this subscriber signal s =
     (let (index, s1) = alloc (Num 0) s;
          (outerComplete, s2) = alloc (Flag False) s1;
          (innerAbortController, s3) = alloc (Ref None) s2
      in subscribe this
           (switchMap_outer_observer callback subscriber signal index outerComplete
              innerAbortController)
           (Some signal) s3)"

definition Observable_switchMap ::
  "('a \<Rightarrow> int \<Rightarrow> 'a + 'a observable) \<Rightarrow> 'a observable \<Rightarrow> 'a observable" where
  "Observable_switchMap callback this = Observable (switchMap_init callback this)"

subsection \<open>A flattening operator under notifications that arrive over time\<close>

text \<open>
  The subscription \<open>source.mergeMap(callback).subscribe(observer)\<close> (or \<open>concatMap\<close>,
  \<open>switchMap\<close>) with a deferred source and deferred inner Observables, from the empty
  state. \<open>subscribe\<close> allocates controller 0 and flag 0 for the downstream
  SafeSubscriber, the operator its three variables as cells 0, 1, 2, and the
  subscription of the source controller 1 and flag 1. The \<open>j\<close>-th inner subscription
  gets flag \<open>2 + j\<close>; its controller is \<open>2 + j\<close> under \<open>mergeMap\<close> and \<open>concatMap\<close>, and
  \<open>3 + 2 * j\<close> under \<open>switchMap\<close>, which allocates a controller of its own before each.
  What the producers do afterwards is a list of emissions: the source or the \<open>j\<close>-th
  inner calls \<open>next\<close>, \<open>error\<close> or \<open>complete\<close> on its SafeSubscriber. An emission of an
  inner that has not been subscribed cannot happen and changes nothing. Each emission
  is a call from a producer that has caught, or a task that has left to the host, what
  an earlier call threw: no exception is in flight when it starts.
\<close>

datatype 'a emission = Outer "'a event" | Inner nat "'a event"

definition downstream :: "'a obs_spec \<Rightarrow> 'a subscriber" where
  "downstream ob = SafeSubscriber 0 0 (user_observer ob)"

definition mergeMap_outer :: "('a \<Rightarrow> int \<Rightarrow> 'a + 'a observable) \<Rightarrow> 'a obs_spec \<Rightarrow> 'a subscriber" where
  "mergeMap_outer callback ob =
     SafeSubscriber 1 1 (mergeMap_outer_observer callback (downstream ob) 0 0 1 2)"

definition mergeMap_inner :: "'a obs_spec \<Rightarrow> nat \<Rightarrow> 'a subscriber" where
  "mergeMap_inner ob j =
     SafeSubscriber (2 + j) (2 + j) (mergeMap_inner_observer (downstream ob) 1 2)"

fun mergeMap_emit ::
  "('a \<Rightarrow> int \<Rightarrow> 'a + 'a observable) \<Rightarrow> 'a obs_spec \<Rightarrow> 'a emission \<Rightarrow> 'a state \<Rightarrow> 'a state" where
  "mergeMap_emit callback ob (Outer ev) s = call (mergeMap_outer callback ob) ev (caught s)"
| "mergeMap_emit callback ob (Inner j ev) s =
     (if 2 + j < length (closed s) then call (mergeMap_inner ob j) ev (caught s) else s)"

definition mergeMap_start :: "('a \<Rightarrow> int \<Rightarrow> 'a + 'a observable) \<Rightarrow> 'a obs_spec \<Rightarrow> 'a state" where
  "mergeMap_start callback ob =
     subscribe (Observable_mergeMap callback deferred) (user_observer ob) None init_state"

definition mergeMap_run ::
  "('a \<Rightarrow> int \<Rightarrow> 'a + 'a observable) \<Rightarrow> 'a obs_spec \<Rightarrow> 'a emission list \<Rightarrow> 'a state" where
  "mergeMap_run callback ob ems = fold (mergeMap_emit callback ob) ems (mergeMap_start callback ob)"

definition concatMap_outer :: "('a \<Rightarrow> int \<Rightarrow> 'a + unit) \<Rightarrow> 'a obs_spec \<Rightarrow> 'a subscriber" where
  "concatMap_outer callback ob =
     SafeSubscriber 1 1 (concatMap_outer_observer callback (downstream ob) 0 0 1 2)"

definition concatMap_inner :: "('a \<Rightarrow> int \<Rightarrow> 'a + unit) \<Rightarrow> 'a obs_spec \<Rightarrow> nat \<Rightarrow> 'a subscriber" where
  "concatMap_inner callback ob j =
     SafeSubscriber (2 + j) (2 + j) (concatMap_inner_observer callback (downstream ob) 0 0 1 2)"

fun concatMap_emit ::
  "('a \<Rightarrow> int \<Rightarrow> 'a + unit) \<Rightarrow> 'a obs_spec \<Rightarrow> 'a emission \<Rightarrow> 'a state \<Rightarrow> 'a state" where
  "concatMap_emit callback ob (Outer ev) s = call (concatMap_outer callback ob) ev (caught s)"
| "concatMap_emit callback ob (Inner j ev) s =
     (if 2 + j < length (closed s) then call (concatMap_inner callback ob j) ev (caught s)
      else s)"

definition concatMap_start :: "('a \<Rightarrow> int \<Rightarrow> 'a + unit) \<Rightarrow> 'a obs_spec \<Rightarrow> 'a state" where
  "concatMap_start callback ob =
     subscribe (Observable_concatMap callback deferred) (user_observer ob) None init_state"

definition concatMap_run ::
  "('a \<Rightarrow> int \<Rightarrow> 'a + unit) \<Rightarrow> 'a obs_spec \<Rightarrow> 'a emission list \<Rightarrow> 'a state" where
  "concatMap_run callback ob ems =
     fold (concatMap_emit callback ob) ems (concatMap_start callback ob)"

text \<open>For \<open>switchMap\<close> the callback of the runs is \<open>() => inner\<close> for deferred inner
  Observables: it never throws, so each value the source's subscriber accepts allocates
  two controllers and one flag, which gives the \<open>j\<close>-th inner the numbers above.\<close>

definition switchMap_outer :: "'a obs_spec \<Rightarrow> 'a subscriber" where
  "switchMap_outer ob =
     SafeSubscriber 1 1 (switchMap_outer_observer (\<lambda>v i. Inr deferred) (downstream ob) 0 0 1 2)"

definition switchMap_inner :: "'a obs_spec \<Rightarrow> nat \<Rightarrow> 'a subscriber" where
  "switchMap_inner ob j =
     SafeSubscriber (2 + j) (3 + 2 * j) (switchMap_inner_observer (downstream ob) 1 2)"

fun switchMap_emit :: "'a obs_spec \<Rightarrow> 'a emission \<Rightarrow> 'a state \<Rightarrow> 'a state" where
  "switchMap_emit ob (Outer ev) s = call (switchMap_outer ob) ev (caught s)"
| "switchMap_emit ob (Inner j ev) s =
     (if 2 + j < length (closed s) then call (switchMap_inner ob j) ev (caught s) else s)"

definition switchMap_start :: "'a obs_spec \<Rightarrow> 'a state" where
  "switchMap_start ob =
     subscribe (Observable_switchMap (\<lambda>v i. Inr deferred) deferred) (user_observer ob) None
       init_state"

definition switchMap_run :: "'a obs_spec \<Rightarrow> 'a emission list \<Rightarrow> 'a state" where
  "switchMap_run ob ems = fold (switchMap_emit ob) ems (switchMap_start ob)"

lemmas flattening_on_state =
  subscribe_deferred_def call_def
  mergeMap_inner_complete_def mergeMap_next_def mergeMap_complete_def mergeMap_init_def
  checkSubscribe_def concatMap_inner_complete_def concatMap_next_def concatMap_complete_def
  concatMap_init_def
  switchMap_inner_complete_def switchMap_next_def switchMap_complete_def switchMap_init_def

lemmas eval_flattening_state = flattening_on_state [where s = "\<lparr>ctrls = cs, next_lid = nl,
     fired = fi, closed = cl, heap = hp, subscribers = sb, subject_closed = sc, out = ou,
     reported = rp, thrown = th\<rparr>"]
  for cs nl fi cl hp sb sc ou rp th

lemmas eval_flattening = eval_flattening_state deferred_def downstream_def
  mergeMap_inner_observer_def mergeMap_outer_observer_def Observable_mergeMap_def
  mergeMap_outer_def mergeMap_inner_def mergeMap_start_def mergeMap_run_def
  concatMap_inner_observer_def concatMap_outer_observer_def Observable_concatMap_def
  concatMap_outer_def concatMap_inner_def concatMap_start_def concatMap_run_def
  switchMap_inner_observer_def switchMap_outer_observer_def Observable_switchMap_def
  switchMap_outer_def switchMap_inner_def switchMap_start_def switchMap_run_def

text \<open>
  C1. \<open>source.switchMap(f)\<close> with deferred inner Observables: the source emits 1 and
  then 2 while the first inner is still running, then the first inner emits 7. When 2
  arrives the handler aborts \<open>innerAbortController\<close> (controller 2), but the first inner
  was subscribed with \<open>signal\<close>, not with that controller's signal: its own controller
  (controller 3) is not aborted and its SafeSubscriber (flag 2) is not closed, next to
  the second inner (controller 5, flag 3). The 7 of the superseded inner is forwarded
  downstream, which the specification excludes.
\<close>

theorem switchMap_forwards_superseded_inner:
  "is_aborted 2 (switchMap_run (collector 0) [Outer (Next (1::int)), Outer (Next 2)])
   \<and> is_aborted 3 (switchMap_run (collector 0) [Outer (Next (1::int)), Outer (Next 2)]) = False
   \<and> is_closed 2 (switchMap_run (collector 0) [Outer (Next (1::int)), Outer (Next 2)]) = False
   \<and> is_aborted 5 (switchMap_run (collector 0) [Outer (Next (1::int)), Outer (Next 2)]) = False
   \<and> is_closed 3 (switchMap_run (collector 0) [Outer (Next (1::int)), Outer (Next 2)]) = False
   \<and> out (switchMap_run (collector 0) [Outer (Next (1::int)), Outer (Next 2), Inner 0 (Next 7)])
       = [(0, Next 7)]"
  by (simp add: eval_defs eval_flattening)

text \<open>
  C2. \<open>source.concatMap(f)\<close> with deferred inner Observables: the source emits 1 and
  then 2 while the first inner is still running; then the second inner emits 20 and
  the first inner emits 10. \<open>checkSubscribe\<close> takes a value off the buffer whenever the
  buffer is not empty, whether or not an inner is active: after the two values the
  buffer is empty and both inner subscriptions (flags 2 and 3, controllers 2 and 3) are
  open, and downstream the value of the second inner comes before the value of the
  first, which the specification excludes.
\<close>

theorem concatMap_runs_inners_together:
  "get_arr 2 (concatMap_run (\<lambda>v i. Inr ()) (collector 0) [Outer (Next (1::int)), Outer (Next 2)]) = []
   \<and> length (closed (concatMap_run (\<lambda>v i. Inr ()) (collector 0) [Outer (Next (1::int)), Outer (Next 2)])) = 4
   \<and> is_closed 2 (concatMap_run (\<lambda>v i. Inr ()) (collector 0) [Outer (Next (1::int)), Outer (Next 2)]) = False
   \<and> is_closed 3 (concatMap_run (\<lambda>v i. Inr ()) (collector 0) [Outer (Next (1::int)), Outer (Next 2)]) = False
   \<and> is_aborted 2 (concatMap_run (\<lambda>v i. Inr ()) (collector 0) [Outer (Next (1::int)), Outer (Next 2)]) = False
   \<and> is_aborted 3 (concatMap_run (\<lambda>v i. Inr ()) (collector 0) [Outer (Next (1::int)), Outer (Next 2)]) = False
   \<and> out (concatMap_run (\<lambda>v i. Inr ()) (collector 0)
        [Outer (Next (1::int)), Outer (Next 2), Inner 1 (Next 20), Inner 0 (Next 10)])
      = [(0, Next 20), (0, Next 10)]"
  by (simp add: eval_defs eval_flattening)

section \<open>\<open>mergeMap\<close>: when the downstream completes and errors\<close>

subsection \<open>Producers that emit while they are subscribed\<close>

text \<open>
  \<open>emitting evs\<close> is an Observable whose subscription procedure makes the calls \<open>evs\<close> on
  its subscriber before it returns, going on after a call that threw, and whose producer
  may emit more after \<open>subscribe\<close> has returned; a producer that an exception stops is one
  whose \<open>evs\<close> end with the call that threw. \<open>emitting []\<close> is the deferred Observable. A
  callback \<open>returning f\<close> throws \<open>err\<close> where \<open>f\<close> gives \<open>Inl err\<close> and returns \<open>emitting evs\<close>
  where it gives \<open>Inr evs\<close>; the index it is called with is different at every call, so
  \<open>f\<close> can give each inner Observable a behaviour of its own.
\<close>

definition emitting :: "'a event list \<Rightarrow> 'a observable" where
  "emitting evs =
     Observable (\<lambda>subscriber signal s. fold (\<lambda>ev s'. call subscriber ev (caught s')) evs s)"

definition returning :: "('a \<Rightarrow> int \<Rightarrow> 'a + 'a event list) \<Rightarrow> 'a \<Rightarrow> int \<Rightarrow> 'a + 'a observable" where
  "returning f v i = (case f v i of Inl err \<Rightarrow> Inl err | Inr evs \<Rightarrow> Inr (emitting evs))"

lemma caught_idle: "\<not> thrown s \<Longrightarrow> caught s = s"
  by (simp add: caught_def)

lemma from_loop_emits:
  "\<not> thrown s \<Longrightarrow>
   \<exists>n. from_loop subscriber signal vs s =
         fold (\<lambda>ev s'. call subscriber ev (caught s')) (map Next (take n vs)) s"
proof (induction vs arbitrary: s)
  case Nil
  have "from_loop subscriber signal [] s
      = fold (\<lambda>ev s'. call subscriber ev (caught s')) (map Next (take 0 [])) s"
    by (simp add: from_loop.simps)
  then show ?case by blast
next
  case (Cons v vs)
  let ?s' = "s_next subscriber v s"
  have c: "call subscriber (Next v) (caught s) = ?s'"
    using Cons.prems by (simp add: call_def caught_idle)
  show ?case
  proof (cases "is_aborted signal s \<or> thrown ?s'")
    case True
    have "from_loop subscriber signal (v # vs) s
        = fold (\<lambda>ev s'. call subscriber ev (caught s'))
            (map Next (take (if is_aborted signal s then 0 else 1) (v # vs))) s"
      using True c by (auto simp: from_loop.simps Let_def)
    then show ?thesis by blast
  next
    case False
    then have "\<not> thrown ?s'" by simp
    from Cons.IH [OF this] obtain n where
      "from_loop subscriber signal vs ?s'
         = fold (\<lambda>ev s'. call subscriber ev (caught s')) (map Next (take n vs)) ?s'" by blast
    with False c have "from_loop subscriber signal (v # vs) s
        = fold (\<lambda>ev s'. call subscriber ev (caught s')) (map Next (take (Suc n) (v # vs))) s"
      by (simp add: from_loop.simps Let_def)
    then show ?thesis by blast
  qed
qed

text \<open>The Observables of \<open>Observable.from\<close> and \<open>Observable.of\<close> over an iterable are
  among them: whatever the state in which one is subscribed, it makes the calls of some
  \<open>emitting\<close> Observable, the values up to the one at which the signal was found aborted
  or a call threw, and \<open>complete\<close> unless a call threw.\<close>

lemma from_iterable_emits:
  assumes "\<not> thrown s"
  shows "\<exists>n b. subscribe (Observable_of vs) observer signal s =
           subscribe (emitting (map Next (take n vs) @ (if b then [Complete] else [])))
             observer signal s"
proof -
  define k where "k = length (closed s)"
  define c where "c = length (ctrls s)"
  from subscribe_creates(1) [where s = s and d = observer and signal = signal]
    subscribe_creates(5) [where s = s and signal = signal]
  obtain s' where sub: "\<And>procedure. subscribe (Observable procedure) observer signal s
      = procedure (SafeSubscriber k c observer) c s'" and "thrown s' = thrown s"
    unfolding k_def c_def by blast
  with assms have nt: "\<not> thrown s'" by simp
  let ?sub = "SafeSubscriber k c observer"
  from from_loop_emits [OF nt, of ?sub c vs] obtain n where
    n: "from_loop ?sub c vs s' = fold (\<lambda>ev x. call ?sub ev (caught x)) (map Next (take n vs)) s'"
    by blast
  let ?u = "from_loop ?sub c vs s'"
  have "from_iterable vs ?sub c s'
      = fold (\<lambda>ev x. call ?sub ev (caught x))
          (map Next (take n vs) @ (if \<not> thrown ?u then [Complete] else [])) s'"
    using n by (simp add: from_iterable_def unless_thrown_def call_def caught_idle)
  then have "subscribe (Observable_of vs) observer signal s =
      subscribe (emitting (map Next (take n vs) @ (if \<not> thrown ?u then [Complete] else [])))
        observer signal s"
    by (simp add: Observable_of_def emitting_def sub)
  then show ?thesis by blast
qed

text \<open>A callback that throws (\<open>Some err\<close>) or returns a deferred Observable.\<close>

definition deferring :: "('a \<Rightarrow> int \<Rightarrow> 'a option) \<Rightarrow> 'a \<Rightarrow> int \<Rightarrow> 'a + 'a observable" where
  "deferring throws v i = (case throws v i of Some err \<Rightarrow> Inl err | None \<Rightarrow> Inr deferred)"

text \<open>\<open>source.mergeMap(callback).subscribe(observer)\<close> from the empty state, for a source
  that makes the calls \<open>srcs\<close> while it is subscribed, followed by the emissions \<open>ems\<close>. The
  calls a source makes while it is subscribed have the effect of emissions that come
  first (\<open>mergeMap_run_from_emissions\<close> below).\<close>

definition mergeMap_run_from ::
  "('a \<Rightarrow> int \<Rightarrow> 'a + 'a observable) \<Rightarrow> 'a obs_spec \<Rightarrow> 'a event list \<Rightarrow> 'a emission list \<Rightarrow>
   'a state" where
  "mergeMap_run_from callback ob srcs ems =
     fold (mergeMap_emit callback ob) ems
       (subscribe (Observable_mergeMap callback (emitting srcs)) (user_observer ob) None init_state)"

lemma emitting_Nil: "emitting [] = deferred"
  by (simp add: emitting_def deferred_def)

lemma deferring_returning:
  "deferring throws = returning (\<lambda>v i. case throws v i of Some err \<Rightarrow> Inl err | None \<Rightarrow> Inr [])"
  by (auto simp: deferring_def returning_def emitting_Nil fun_eq_iff split: option.splits)

lemma subscribe_emitting:
  "subscribe (emitting evs) observer (Some signal) s =
     fold (\<lambda>ev s'. call (SafeSubscriber (length (closed s)) (length (ctrls s)) observer) ev (caught s'))
       evs (snd (subscribe_deferred signal s))"
  by (simp add: subscribe_def subscribe_deferred_def emitting_def split_def Let_def
        new_controller_def new_closed_def chainAbort_def addEventListener_def)

lemma mergeMap_start_emitting:
  "subscribe (Observable_mergeMap callback (emitting srcs)) (user_observer ob) None init_state
     = fold (mergeMap_emit callback ob) (map Outer srcs) (mergeMap_start callback ob)"
proof -
  have f: "(\<lambda>ev s'. call (mergeMap_outer callback ob) ev (caught s'))
      = mergeMap_emit callback ob \<circ> Outer"
    by (simp add: fun_eq_iff)
  show ?thesis
    unfolding mergeMap_start_def fold_map f [symmetric]
    by (simp add: subscribe_def [where signal = None]
          Observable_mergeMap_def mergeMap_init_def split_def Let_def alloc_def new_controller_def
          new_closed_def init_state_def subscribe_emitting subscribe_deferred
          mergeMap_outer_def downstream_def numeral_2_eq_2)
qed

lemma mergeMap_run_from_emissions:
  "mergeMap_run_from callback ob srcs ems = mergeMap_run callback ob (map Outer srcs @ ems)"
  by (simp add: mergeMap_run_from_def mergeMap_run_def mergeMap_start_emitting)


subsection \<open>The variables of the operator and the flags of the subscribers\<close>

text \<open>The part of the state the operator's closures read and write: its three
  variables, the \<open>_closed\<close> flags and what the observer has received. \<open>mm_step\<close> is what an
  emission does to it; an inner Observable that emits while it is subscribed does so
  right after \<open>active++\<close> and the creation of its subscriber.\<close>

record 'a mm =
  m_index :: int
  m_active :: int
  m_outer :: bool
  m_closed :: "bool list"
  m_out :: "(nat \<times> 'a event) list"

definition mm_of :: "'a state \<Rightarrow> 'a mm" where
  "mm_of s = \<lparr>m_index = get_num 0 s, m_active = get_num 1 s, m_outer = get_flag 2 s,
     m_closed = closed s, m_out = out s\<rparr>"

definition mm_shape :: "'a state \<Rightarrow> bool" where
  "mm_shape s = (2 \<le> length (closed s) \<and>
     (case heap s of [Num i, Num a, Flag b] \<Rightarrow> True | _ \<Rightarrow> False))"

definition mm_down_next :: "'a obs_spec \<Rightarrow> 'a \<Rightarrow> 'a mm \<Rightarrow> 'a mm" where
  "mm_down_next ob v m =
     (if m_closed m ! 0 \<or> \<not> has_next ob then m
      else m\<lparr>m_out := m_out m @ [(name ob, Next v)]\<rparr>)"

definition mm_down_end :: "'a obs_spec \<Rightarrow> 'a event \<Rightarrow> 'a mm \<Rightarrow> 'a mm" where
  "mm_down_end ob ev m =
     (if m_closed m ! 0 then m
      else m\<lparr>m_closed := (m_closed m)[0 := True],
             m_out := (if present ob ev then m_out m @ [(name ob, ev)] else m_out m)\<rparr>)"

fun mm_inner :: "'a obs_spec \<Rightarrow> nat \<Rightarrow> 'a event \<Rightarrow> 'a mm \<Rightarrow> 'a mm" where
  "mm_inner ob j (Next v) m =
     (if 2 + j < length (m_closed m) \<and> \<not> m_closed m ! (2 + j) then mm_down_next ob v m else m)"
| "mm_inner ob j (Error e) m =
     (if 2 + j < length (m_closed m) \<and> \<not> m_closed m ! (2 + j)
      then mm_down_end ob (Error e) (m\<lparr>m_closed := (m_closed m)[2 + j := True]\<rparr>) else m)"
| "mm_inner ob j Complete m =
     (if 2 + j < length (m_closed m) \<and> \<not> m_closed m ! (2 + j)
      then (if m_outer m \<and> m_active m - 1 = 0
            then mm_down_end ob Complete
                   (m\<lparr>m_closed := (m_closed m)[2 + j := True], m_active := m_active m - 1\<rparr>)
            else m\<lparr>m_closed := (m_closed m)[2 + j := True], m_active := m_active m - 1\<rparr>)
      else m)"

fun mm_step ::
  "('a \<Rightarrow> int \<Rightarrow> 'a + 'a event list) \<Rightarrow> 'a obs_spec \<Rightarrow> 'a emission \<Rightarrow> 'a mm \<Rightarrow> 'a mm" where
  "mm_step f ob (Outer (Next v)) m =
     (if m_closed m ! 1 then m
      else case f v (m_index m) of
             Inl err \<Rightarrow> mm_down_end ob (Error err) (m\<lparr>m_index := m_index m + 1\<rparr>)
           | Inr evs \<Rightarrow>
               fold (mm_inner ob (length (m_closed m) - 2)) evs
                 (m\<lparr>m_index := m_index m + 1, m_active := m_active m + 1,
                    m_closed := m_closed m @ [False]\<rparr>))"
| "mm_step f ob (Outer (Error e)) m =
     (if m_closed m ! 1 then m
      else mm_down_end ob (Error e) (m\<lparr>m_closed := (m_closed m)[1 := True]\<rparr>))"
| "mm_step f ob (Outer Complete) m =
     (if m_closed m ! 1 then m
      else if m_active m = 0
           then mm_down_end ob Complete (m\<lparr>m_closed := (m_closed m)[1 := True], m_outer := True\<rparr>)
           else m\<lparr>m_closed := (m_closed m)[1 := True], m_outer := True\<rparr>)"
| "mm_step f ob (Inner j ev) m = mm_inner ob j ev m"

lemma closed_set_cell [simp]: "closed (set_cell i x s) = closed s"
  by (simp add: set_cell_def)

lemma out_set_cell [simp]: "out (set_cell i x s) = out s"
  by (simp add: set_cell_def)

lemma heap_set_cell [simp]: "heap (set_cell i x s) = (heap s)[i := x]"
  by (simp add: set_cell_def)

lemma closed_set_closed [simp]: "closed (set_closed k s) = (closed s)[k := True]"
  by (simp add: set_closed_def)

lemma out_set_closed [simp]: "out (set_closed k s) = out s"
  by (simp add: set_closed_def)

lemma heap_set_closed [simp]: "heap (set_closed k s) = heap s"
  by (simp add: set_closed_def)

lemma subscribe_deferred_fields [simp]:
  "closed (snd (subscribe_deferred signal s)) = closed s @ [False]"
  "heap (snd (subscribe_deferred signal s)) = heap s"
  "out (snd (subscribe_deferred signal s)) = out s"
  by (simp_all add: subscribe_deferred_def new_controller_def chainAbort_def new_closed_def
        addEventListener_def Let_def)

lemma hostReportError_fields [simp]:
  "closed (hostReportError e s) = closed s"
  "heap (hostReportError e s) = heap s"
  "out (hostReportError e s) = out s"
  by (simp_all add: hostReportError_def)

lemma caught_fields [simp]:
  "closed (caught s) = closed s" "heap (caught s) = heap s" "out (caught s) = out s"
  by (simp_all add: caught_def)

lemma unless_thrown_abort_fields [simp]:
  "closed (unless_thrown (abort c) s) = closed s"
  "heap (unless_thrown (abort c) s) = heap s"
  "out (unless_thrown (abort c) s) = out s"
  by (simp_all add: unless_thrown_def)

lemma mm_of_fields [simp]:
  "m_closed (mm_of s) = closed s" "m_out (mm_of s) = out s"
  "m_index (mm_of s) = get_num 0 s" "m_active (mm_of s) = get_num 1 s"
  "m_outer (mm_of s) = get_flag 2 s"
  by (simp_all add: mm_of_def)

lemma mm_frame:
  "closed t = closed s \<Longrightarrow> heap t = heap s \<Longrightarrow> out t = out s \<Longrightarrow>
   mm_shape t = mm_shape s \<and> mm_of t = mm_of s"
  by (simp add: mm_shape_def mm_of_def get_num_def get_flag_def)

lemma mm_abort [simp]: "mm_shape (abort c s) = mm_shape s" "mm_of (abort c s) = mm_of s"
  using mm_frame [of "abort c s" s] by simp_all

lemma mm_caught [simp]: "mm_shape (caught s) = mm_shape s" "mm_of (caught s) = mm_of s"
  using mm_frame [of "caught s" s] by simp_all

lemma mm_unless_thrown_abort [simp]:
  "mm_shape (unless_thrown (abort c) s) = mm_shape s"
  "mm_of (unless_thrown (abort c) s) = mm_of s"
  using mm_frame [of "unless_thrown (abort c) s" s] by simp_all

lemma mm_hostReportError [simp]:
  "mm_shape (hostReportError e s) = mm_shape s" "mm_of (hostReportError e s) = mm_of s"
  using mm_frame [of "hostReportError e s" s] by simp_all

lemma mm_notify [simp]:
  "mm_shape (notify ob ev s) = mm_shape s"
  "mm_of (notify ob ev s) = (mm_of s)\<lparr>m_out := m_out (mm_of s) @ [(name ob, ev)]\<rparr>"
  by (simp_all add: mm_shape_def mm_of_def get_num_def get_flag_def notify_def Let_def)

lemma get_num_set_cell_other [simp]: "i \<noteq> j \<Longrightarrow> get_num i (set_cell j x s) = get_num i s"
  by (simp add: get_num_def set_cell_def)

lemma get_flag_set_cell_other [simp]: "i \<noteq> j \<Longrightarrow> get_flag i (set_cell j x s) = get_flag i s"
  by (simp add: get_flag_def set_cell_def)

lemma get_set_closed [simp]:
  "get_num i (set_closed k s) = get_num i s" "get_flag i (set_closed k s) = get_flag i s"
  by (simp_all add: get_num_def get_flag_def set_closed_def)

lemma mm_set_closed [simp]:
  "mm_shape (set_closed k s) = mm_shape s"
  "mm_of (set_closed k s) = (mm_of s)\<lparr>m_closed := (m_closed (mm_of s))[k := True]\<rparr>"
  by (simp_all add: mm_shape_def mm_of_def get_num_def get_flag_def)

lemma mm_subscribe_deferred [simp]:
  "mm_shape s \<Longrightarrow> mm_shape (snd (subscribe_deferred signal s))"
  "mm_of (snd (subscribe_deferred signal s)) = (mm_of s)\<lparr>m_closed := m_closed (mm_of s) @ [False]\<rparr>"
  by (simp_all add: mm_shape_def mm_of_def get_num_def get_flag_def)

lemma mm_set_index [simp]:
  "mm_shape s \<Longrightarrow> mm_shape (set_cell 0 (Num x) s)"
  "mm_shape s \<Longrightarrow> mm_of (set_cell 0 (Num x) s) = (mm_of s)\<lparr>m_index := x\<rparr>"
  by (auto simp: mm_shape_def mm_of_def get_num_def get_flag_def split: list.splits cell.splits)

lemma mm_set_active [simp]:
  "mm_shape s \<Longrightarrow> mm_shape (set_cell (Suc 0) (Num x) s)"
  "mm_shape s \<Longrightarrow> mm_of (set_cell (Suc 0) (Num x) s) = (mm_of s)\<lparr>m_active := x\<rparr>"
  by (auto simp: mm_shape_def mm_of_def get_num_def get_flag_def split: list.splits cell.splits)

lemma mm_set_outer [simp]:
  "mm_shape s \<Longrightarrow> mm_shape (set_cell 2 (Flag x) s)"
  "mm_shape s \<Longrightarrow> mm_of (set_cell 2 (Flag x) s) = (mm_of s)\<lparr>m_outer := x\<rparr>"
  by (auto simp: mm_shape_def mm_of_def get_num_def get_flag_def split: list.splits cell.splits)

lemma mm_shape_length: "mm_shape s \<Longrightarrow> 2 \<le> length (closed s)"
  by (simp add: mm_shape_def)

lemma mm_is_closed:
  "mm_shape s \<Longrightarrow> is_closed 0 s = closed s ! 0"
  "mm_shape s \<Longrightarrow> is_closed (Suc 0) s = closed s ! Suc 0"
  using mm_shape_length [of s] by (auto simp: is_closed_def)

lemma downstream_next:
  "s_next (downstream ob) v s =
     (if is_closed 0 s \<or> \<not> has_next ob then s else notify ob (Next v) s)"
  by (simp add: downstream_def SafeSubscriber_def SafeSubscriber_next_def user_observer_def)

lemma downstream_error:
  "s_error (downstream ob) e s =
     (if is_closed 0 s then s
      else unless_thrown (abort 0)
             (if has_error ob then notify ob (Error e) (set_closed 0 s)
              else hostReportError e (set_closed 0 s)))"
  by (simp add: downstream_def SafeSubscriber_def SafeSubscriber_error_def user_observer_def)

lemma downstream_complete:
  "s_complete (downstream ob) s =
     (if is_closed 0 s then s
      else unless_thrown (abort 0)
             (if has_complete ob then notify ob Complete (set_closed 0 s) else set_closed 0 s))"
  by (simp add: downstream_def SafeSubscriber_def SafeSubscriber_complete_def user_observer_def)

lemma mm_down_next [simp]:
  "mm_shape s \<Longrightarrow> mm_shape (s_next (downstream ob) v s)"
  "mm_shape s \<Longrightarrow> mm_of (s_next (downstream ob) v s) = mm_down_next ob v (mm_of s)"
  by (simp_all add: downstream_next mm_is_closed mm_down_next_def)

lemma mm_down_error [simp]:
  "mm_shape s \<Longrightarrow> mm_shape (s_error (downstream ob) e s)"
  "mm_shape s \<Longrightarrow> mm_of (s_error (downstream ob) e s) = mm_down_end ob (Error e) (mm_of s)"
  by (simp_all add: downstream_error mm_is_closed mm_down_end_def)

lemma mm_down_complete [simp]:
  "mm_shape s \<Longrightarrow> mm_shape (s_complete (downstream ob) s)"
  "mm_shape s \<Longrightarrow> mm_of (s_complete (downstream ob) s) = mm_down_end ob Complete (mm_of s)"
  by (simp_all add: downstream_complete mm_is_closed mm_down_end_def)


lemma mm_get_after_set [simp]:
  "mm_shape s \<Longrightarrow> get_num 0 (set_cell 0 (Num x) s) = x"
  "mm_shape s \<Longrightarrow> get_num (Suc 0) (set_cell (Suc 0) (Num x) s) = x"
  "mm_shape s \<Longrightarrow> get_flag 2 (set_cell 2 (Flag b) s) = b"
  by (auto simp: mm_shape_def get_num_def get_flag_def set_cell_def split: list.splits cell.splits)

lemma length_mm_down [simp]:
  "length (m_closed (mm_down_next ob v m)) = length (m_closed m)"
  "length (m_closed (mm_down_end ob ev m)) = length (m_closed m)"
  by (simp_all add: mm_down_next_def mm_down_end_def)

lemma length_mm_inner [simp]: "length (m_closed (mm_inner ob j ev m)) = length (m_closed m)"
  by (cases ev) simp_all

lemma length_fold_mm_inner [simp]:
  "length (m_closed (fold (mm_inner ob j) evs m)) = length (m_closed m)"
  by (induction evs arbitrary: m) simp_all

lemma mergeMap_inner_call_sim:
  assumes "mm_shape s" and "2 + j < length (closed s)"
  shows "mm_shape (call (SafeSubscriber (2 + j) c (mergeMap_inner_observer (downstream ob) 1 2)) ev s)
       \<and> mm_of (call (SafeSubscriber (2 + j) c (mergeMap_inner_observer (downstream ob) 1 2)) ev s)
           = mm_inner ob j ev (mm_of s)"
proof -
  from assms(2) have cj: "is_closed (Suc (Suc j)) s = closed s ! Suc (Suc j)"
    by (simp add: is_closed_def)
  show ?thesis
  proof (cases ev)
    case (Next v)
    with assms cj show ?thesis
      by (simp add: call_def SafeSubscriber_def SafeSubscriber_next_def
            mergeMap_inner_observer_def)
  next
    case (Error e)
    with assms cj show ?thesis
      by (simp add: call_def SafeSubscriber_def SafeSubscriber_error_def
            mergeMap_inner_observer_def)
  next
    case Complete
    with assms cj show ?thesis
      by (simp add: call_def SafeSubscriber_def SafeSubscriber_complete_def
            mergeMap_inner_observer_def mergeMap_inner_complete_def Let_def)
  qed
qed

lemma mergeMap_inner_calls_sim:
  assumes "mm_shape s" and "2 + j < length (closed s)"
  shows "mm_shape (fold (\<lambda>ev s'. call (SafeSubscriber (2 + j) c
                    (mergeMap_inner_observer (downstream ob) 1 2)) ev (caught s')) evs s)
       \<and> mm_of (fold (\<lambda>ev s'. call (SafeSubscriber (2 + j) c
                    (mergeMap_inner_observer (downstream ob) 1 2)) ev (caught s')) evs s)
           = fold (mm_inner ob j) evs (mm_of s)"
  using assms
proof (induction evs arbitrary: s)
  case Nil
  then show ?case by simp
next
  case (Cons ev evs)
  let ?t = "call (SafeSubscriber (2 + j) c (mergeMap_inner_observer (downstream ob) 1 2)) ev (caught s)"
  from Cons.prems have "mm_shape (caught s)" "2 + j < length (closed (caught s))" by simp_all
  from mergeMap_inner_call_sim [OF this, of c ob ev]
  have t: "mm_shape ?t" "mm_of ?t = mm_inner ob j ev (mm_of s)" by simp_all
  from t(2) have "closed ?t = m_closed (mm_inner ob j ev (mm_of s))"
    using mm_of_fields(1) by metis
  with Cons.prems(2) have "2 + j < length (closed ?t)" by simp
  from Cons.IH [OF t(1) this] t(2) show ?case by simp
qed


lemma get_caught [simp]:
  "get_num i (caught s) = get_num i s" "get_flag i (caught s) = get_flag i s"
  "is_closed k (caught s) = is_closed k s"
  by (simp_all add: get_num_def get_flag_def is_closed_def)

lemma mergeMap_emit_sim:
  assumes "mm_shape s"
  shows "mm_shape (mergeMap_emit (returning f) ob em s)
       \<and> mm_of (mergeMap_emit (returning f) ob em s) = mm_step f ob em (mm_of s)"
proof (cases em)
  case (Outer ev)
  note c1 = mm_is_closed(2) [OF assms]
  show ?thesis
  proof (cases ev)
    case (Next v)
    show ?thesis
    proof (cases "closed s ! Suc 0")
      case True
      with Outer Next assms c1 show ?thesis
        by (simp add: call_def mergeMap_outer_def SafeSubscriber_def SafeSubscriber_next_def
              is_closed_def)
    next
      case False
      show ?thesis
      proof (cases "f v (get_num 0 s)")
        case (Inl err)
        with Outer Next assms c1 False show ?thesis
          by (simp add: call_def mergeMap_outer_def SafeSubscriber_def SafeSubscriber_next_def
                mergeMap_outer_observer_def mergeMap_next_def returning_def Let_def
                is_closed_def)
      next
        case (Inr evs)
        define j where "j = length (closed s) - 2"
        let ?s2 = "set_cell (Suc 0) (Num (get_num (Suc 0) s + 1)) (set_cell 0 (Num (get_num 0 s + 1)) (caught s))"
        let ?s3 = "snd (subscribe_deferred 0 ?s2)"
        from assms have len: "length (closed s) = 2 + j"
          using mm_shape_length [of s] by (simp add: j_def)
        have sh: "mm_shape ?s3" using assms by simp
        have m3: "mm_of ?s3 = (mm_of s)\<lparr>m_index := m_index (mm_of s) + 1,
            m_active := m_active (mm_of s) + 1, m_closed := m_closed (mm_of s) @ [False]\<rparr>"
          using assms by simp
        have l3: "2 + j < length (closed ?s3)" using len by simp
        have run: "mergeMap_emit (returning f) ob em s =
            fold (\<lambda>ev s'. call (SafeSubscriber (2 + j) (length (ctrls ?s2))
                    (mergeMap_inner_observer (downstream ob) 1 2)) ev (caught s')) evs ?s3"
          using Outer Next assms c1 False Inr len
          by (simp add: call_def mergeMap_outer_def SafeSubscriber_def SafeSubscriber_next_def
                mergeMap_outer_observer_def mergeMap_next_def returning_def Let_def
                subscribe_emitting is_closed_def)
        have "mm_step f ob em (mm_of s) = fold (mm_inner ob j) evs (mm_of ?s3)"
          using Outer Next False Inr m3 by (simp add: j_def)
        with mergeMap_inner_calls_sim [OF sh l3, of "length (ctrls ?s2)" ob evs] run
        show ?thesis by simp
      qed
    qed
  next
    case (Error e)
    with Outer assms c1 show ?thesis
      by (simp add: call_def mergeMap_outer_def SafeSubscriber_def SafeSubscriber_error_def
            mergeMap_outer_observer_def)
  next
    case Complete
    with Outer assms c1 show ?thesis
      by (simp add: call_def mergeMap_outer_def SafeSubscriber_def SafeSubscriber_complete_def
            mergeMap_outer_observer_def mergeMap_complete_def Let_def)
  qed
next
  case (Inner j ev)
  show ?thesis
  proof (cases "2 + j < length (closed s)")
    case False
    with Inner show ?thesis using assms by (cases ev) simp_all
  next
    case True
    from assms True have "mm_shape (caught s)" "2 + j < length (closed (caught s))" by simp_all
    from mergeMap_inner_call_sim [OF this, of "2 + j" ob ev] Inner True
    show ?thesis by (simp add: mergeMap_inner_def)
  qed
qed

lemma mergeMap_fold_sim:
  "mm_shape s \<Longrightarrow>
   mm_shape (fold (mergeMap_emit (returning f) ob) ems s) \<and>
   mm_of (fold (mergeMap_emit (returning f) ob) ems s) = fold (mm_step f ob) ems (mm_of s)"
  by (induction ems arbitrary: s) (simp_all add: mergeMap_emit_sim)

definition mm_start :: "'a mm" where
  "mm_start = \<lparr>m_index = 0, m_active = 0, m_outer = False, m_closed = [False, False], m_out = []\<rparr>"

lemma mergeMap_start_sim:
  "mm_shape (mergeMap_start callback ob)"
  "mm_of (mergeMap_start callback ob) = mm_start"
  by (simp_all add: mm_shape_def mm_of_def mm_start_def eval_defs eval_flattening)

lemma mergeMap_run_sim:
  "mm_shape (mergeMap_run (returning f) ob ems)"
  "mm_of (mergeMap_run (returning f) ob ems) = fold (mm_step f ob) ems mm_start"
  using mergeMap_fold_sim [OF mergeMap_start_sim(1), of f ob ems]
  by (simp_all add: mergeMap_run_def mergeMap_start_sim)


subsection \<open>What the source and the inner Observables have done\<close>

text \<open>
  A producer is \<open>running\<close> while it has emitted neither \<open>error\<close> nor \<open>complete\<close>, and it
  \<open>completes\<close> if the first of the two it emits is \<open>complete\<close>. The history of a run holds
  what the source has emitted, and for every inner subscription, in the order in which
  they were made, what the inner Observable has emitted, first while it was subscribed
  and then in later emissions. An inner subscription is made for each value the source
  emits while it is running, with the number of values before it as the index, unless
  the callback throws.
\<close>

fun running :: "'a event list \<Rightarrow> bool" where
  "running [] = True"
| "running (ev # evs) = (\<not> is_terminal ev \<and> running evs)"

fun completes :: "'a event list \<Rightarrow> bool" where
  "completes [] = False"
| "completes (Next v # evs) = completes evs"
| "completes (Error e # evs) = False"
| "completes (Complete # evs) = True"

record 'a history =
  h_source :: "'a event list"
  h_inners :: "'a event list list"

definition h_emit :: "nat \<Rightarrow> 'a event \<Rightarrow> 'a history \<Rightarrow> 'a history" where
  "h_emit j ev h =
     (if j < length (h_inners h) then h\<lparr>h_inners := (h_inners h)[j := h_inners h ! j @ [ev]]\<rparr>
      else h)"

fun observe :: "('a \<Rightarrow> int \<Rightarrow> 'a + 'a event list) \<Rightarrow> 'a emission \<Rightarrow> 'a history \<Rightarrow> 'a history" where
  "observe f (Outer (Next v)) h =
     (if running (h_source h)
      then case f v (int (length (h_source h))) of
             Inl err \<Rightarrow> h\<lparr>h_source := h_source h @ [Next v]\<rparr>
           | Inr evs \<Rightarrow> h\<lparr>h_source := h_source h @ [Next v], h_inners := h_inners h @ [evs]\<rparr>
      else h\<lparr>h_source := h_source h @ [Next v]\<rparr>)"
| "observe f (Outer (Error e)) h = h\<lparr>h_source := h_source h @ [Error e]\<rparr>"
| "observe f (Outer Complete) h = h\<lparr>h_source := h_source h @ [Complete]\<rparr>"
| "observe f (Inner j ev) h = h_emit j ev h"

definition history :: "('a \<Rightarrow> int \<Rightarrow> 'a + 'a event list) \<Rightarrow> 'a emission list \<Rightarrow> 'a history" where
  "history f ems = fold (observe f) ems \<lparr>h_source = [], h_inners = []\<rparr>"

lemma running_append [simp]: "running (xs @ ys) = (running xs \<and> running ys)"
  by (induction xs) auto

lemma completes_append [simp]:
  "completes (xs @ ys) = (completes xs \<or> (running xs \<and> completes ys))"
  by (induction xs rule: completes.induct) auto

lemma completes_not_running: "completes xs \<Longrightarrow> \<not> running xs"
  by (induction xs rule: completes.induct) auto

lemma running_not_completes: "running xs \<Longrightarrow> \<not> completes xs"
  using completes_not_running by blast

lemma filter_update_same:
  "j < length xs \<Longrightarrow> P (xs ! j) = P y \<Longrightarrow> length (filter P (xs[j := y])) = length (filter P xs)"
proof (induction xs arbitrary: j)
  case Nil
  then show ?case by simp
next
  case (Cons x xs)
  then show ?case by (cases j) auto
qed

lemma filter_update_drop:
  "j < length xs \<Longrightarrow> P (xs ! j) \<Longrightarrow> \<not> P y \<Longrightarrow>
   Suc (length (filter P (xs[j := y]))) = length (filter P xs)"
proof (induction xs arbitrary: j)
  case Nil
  then show ?case by simp
next
  case (Cons x xs)
  then show ?case by (cases j) auto
qed

text \<open>The operator's variables and the \<open>_closed\<close> flags of the subscribers of the source
  and of the inners, read off the history.\<close>

definition tracks :: "'a mm \<Rightarrow> 'a history \<Rightarrow> bool" where
  "tracks m h =
     (length (m_closed m) = 2 + length (h_inners h)
      \<and> (m_closed m ! 1 \<longleftrightarrow> \<not> running (h_source h))
      \<and> (m_outer m \<longleftrightarrow> completes (h_source h))
      \<and> (running (h_source h) \<longrightarrow> m_index m = int (length (h_source h)))
      \<and> (\<forall>j < length (h_inners h). m_closed m ! (2 + j) \<longleftrightarrow> \<not> running (h_inners h ! j))
      \<and> m_active m = int (length (filter (\<lambda>evs. \<not> completes evs) (h_inners h))))"

lemma tracks_down [simp]:
  "tracks (mm_down_next ob v m) h = tracks m h"
  "1 < length (m_closed m) \<Longrightarrow> tracks (mm_down_end ob ev m) h = tracks m h"
  by (auto simp: tracks_def mm_down_next_def mm_down_end_def)

lemma tracks_length: "tracks m h \<Longrightarrow> length (m_closed m) = 2 + length (h_inners h)"
  by (simp add: tracks_def)

lemma tracks_emit_same:
  assumes "tracks m h" and j: "j < length (h_inners h)"
    and "running (h_inners h ! j @ [ev]) = running (h_inners h ! j)"
    and c: "completes (h_inners h ! j @ [ev]) = completes (h_inners h ! j)"
  shows "tracks m (h_emit j ev h)"
proof -
  have "length (filter (\<lambda>evs. \<not> completes evs) ((h_inners h)[j := h_inners h ! j @ [ev]]))
      = length (filter (\<lambda>evs. \<not> completes evs) (h_inners h))"
    using j c by (intro filter_update_same) simp_all
  with assms show ?thesis
    unfolding tracks_def h_emit_def by (auto simp: nth_list_update)
qed

lemma tracks_emit_error:
  assumes "tracks m h" and j: "j < length (h_inners h)" and r: "running (h_inners h ! j)"
  shows "tracks (m\<lparr>m_closed := (m_closed m)[2 + j := True]\<rparr>) (h_emit j (Error e) h)"
proof -
  from r have "\<not> completes (h_inners h ! j)" by (rule running_not_completes)
  then have "length (filter (\<lambda>evs. \<not> completes evs) ((h_inners h)[j := h_inners h ! j @ [Error e]]))
      = length (filter (\<lambda>evs. \<not> completes evs) (h_inners h))"
    using j r by (intro filter_update_same) simp_all
  with assms show ?thesis
    unfolding tracks_def h_emit_def by (auto simp: nth_list_update)
qed

lemma tracks_emit_complete:
  assumes "tracks m h" and j: "j < length (h_inners h)" and r: "running (h_inners h ! j)"
  shows "tracks (m\<lparr>m_closed := (m_closed m)[2 + j := True], m_active := m_active m - 1\<rparr>)
           (h_emit j Complete h)"
proof -
  from r have "\<not> completes (h_inners h ! j)" by (rule running_not_completes)
  then have "Suc (length (filter (\<lambda>evs. \<not> completes evs) ((h_inners h)[j := h_inners h ! j @ [Complete]])))
      = length (filter (\<lambda>evs. \<not> completes evs) (h_inners h))"
    using j r by (intro filter_update_drop) simp_all
  then have "int (length (filter (\<lambda>evs. \<not> completes evs) ((h_inners h)[j := h_inners h ! j @ [Complete]])))
      = int (length (filter (\<lambda>evs. \<not> completes evs) (h_inners h))) - 1"
    by linarith
  with assms show ?thesis
    unfolding tracks_def h_emit_def by (auto simp: nth_list_update)
qed

lemma tracks_inner:
  assumes "tracks m h"
  shows "tracks (mm_inner ob j ev m) (h_emit j ev h)"
proof (cases "j < length (h_inners h)")
  case False
  with assms show ?thesis by (cases ev) (simp_all add: h_emit_def tracks_def)
next
  case True
  let ?xs = "h_inners h ! j"
  from assms True have len: "2 + j < length (m_closed m)" "1 < length (m_closed m)"
    by (simp_all add: tracks_def)
  from assms True have cj: "m_closed m ! (2 + j) \<longleftrightarrow> \<not> running ?xs" by (simp add: tracks_def)
  show ?thesis
  proof (cases "running ?xs")
    case False
    then have "tracks m (h_emit j ev h)"
      using assms True by (intro tracks_emit_same) simp_all
    with False cj show ?thesis by (cases ev) simp_all
  next
    case run: True
    show ?thesis
    proof (cases ev)
      case (Next v)
      have "tracks m (h_emit j (Next v) h)"
        using assms True by (intro tracks_emit_same) simp_all
      with Next show ?thesis by simp
    next
      case (Error e)
      from tracks_emit_error [OF assms True run, of e] Error run cj len
      show ?thesis by simp
    next
      case Complete
      from tracks_emit_complete [OF assms True run] Complete run cj len
      show ?thesis by auto
    qed
  qed
qed

lemma tracks_inners:
  "tracks m h \<Longrightarrow> tracks (fold (mm_inner ob j) evs m) (fold (h_emit j) evs h)"
  by (induction evs arbitrary: m h) (simp_all add: tracks_inner)


lemma fold_h_emit_last:
  "h_inners h = xss @ [ys] \<Longrightarrow>
   fold (h_emit (length xss)) evs h = h\<lparr>h_inners := xss @ [ys @ evs]\<rparr>"
proof (induction evs arbitrary: ys h)
  case Nil
  then show ?case by simp
next
  case (Cons ev evs)
  have "h_inners (h_emit (length xss) ev h) = xss @ [ys @ [ev]]"
    using Cons.prems by (simp add: h_emit_def)
  from Cons.IH [OF this] Cons.prems show ?case by (simp add: h_emit_def)
qed

lemma tracks_source_ignored:
  "tracks m h \<Longrightarrow> \<not> running (h_source h) \<Longrightarrow> tracks m (h\<lparr>h_source := h_source h @ [ev]\<rparr>)"
  by (simp add: tracks_def)

lemma tracks_source_next:
  "tracks m h \<Longrightarrow> running (h_source h) \<Longrightarrow>
   tracks (m\<lparr>m_index := m_index m + 1\<rparr>) (h\<lparr>h_source := h_source h @ [Next v]\<rparr>)"
  by (auto simp: tracks_def dest: running_not_completes)

lemma tracks_subscribe:
  "tracks m h \<Longrightarrow>
   tracks (m\<lparr>m_active := m_active m + 1, m_closed := m_closed m @ [False]\<rparr>)
     (h\<lparr>h_inners := h_inners h @ [[]]\<rparr>)"
  by (auto simp: tracks_def nth_append)

lemma tracks_source_error:
  "tracks m h \<Longrightarrow> running (h_source h) \<Longrightarrow>
   tracks (m\<lparr>m_closed := (m_closed m)[1 := True]\<rparr>) (h\<lparr>h_source := h_source h @ [Error e]\<rparr>)"
  by (auto simp: tracks_def dest: running_not_completes)

lemma tracks_source_complete:
  "tracks m h \<Longrightarrow> running (h_source h) \<Longrightarrow>
   tracks (m\<lparr>m_closed := (m_closed m)[1 := True], m_outer := True\<rparr>)
     (h\<lparr>h_source := h_source h @ [Complete]\<rparr>)"
  by (auto simp: tracks_def)

lemma tracks_step:
  assumes "tracks m h"
  shows "tracks (mm_step f ob em m) (observe f em h)"
proof (cases em)
  case (Inner j ev)
  with assms show ?thesis by (simp add: tracks_inner)
next
  case (Outer ev)
  from assms have c1: "m_closed m ! 1 \<longleftrightarrow> \<not> running (h_source h)"
    and len: "1 < length (m_closed m)" "length (m_closed m) - 2 = length (h_inners h)"
    by (simp_all add: tracks_def)
  show ?thesis
  proof (cases "running (h_source h)")
    case False
    with assms c1 Outer show ?thesis
      by (cases ev) (simp_all add: tracks_source_ignored)
  next
    case True
    with assms have ix: "m_index m = int (length (h_source h))" by (simp add: tracks_def)
    show ?thesis
    proof (cases ev)
      case (Next v)
      have t1: "tracks (m\<lparr>m_index := m_index m + 1\<rparr>) (h\<lparr>h_source := h_source h @ [Next v]\<rparr>)"
        using assms True by (rule tracks_source_next)
      show ?thesis
      proof (cases "f v (m_index m)")
        case (Inl err)
        with Outer Next True c1 ix t1 len show ?thesis by simp
      next
        case (Inr evs)
        let ?m1 = "m\<lparr>m_index := m_index m + 1, m_active := m_active m + 1,
            m_closed := m_closed m @ [False]\<rparr>"
        let ?h1 = "h\<lparr>h_source := h_source h @ [Next v], h_inners := h_inners h @ [[]]\<rparr>"
        from tracks_subscribe [OF t1] have "tracks ?m1 ?h1" by simp
        then have "tracks (fold (mm_inner ob (length (h_inners h))) evs ?m1)
            (fold (h_emit (length (h_inners h))) evs ?h1)"
          by (rule tracks_inners)
        moreover have "fold (h_emit (length (h_inners h))) evs ?h1
            = h\<lparr>h_source := h_source h @ [Next v], h_inners := h_inners h @ [evs]\<rparr>"
          using fold_h_emit_last [of ?h1 "h_inners h" "[]" evs] by simp
        ultimately show ?thesis using Outer Next True c1 ix Inr len by simp
      qed
    next
      case (Error e)
      with Outer True c1 len tracks_source_error [OF assms True, of e] show ?thesis by simp
    next
      case Complete
      with Outer True c1 len tracks_source_complete [OF assms True] show ?thesis by auto
    qed
  qed
qed

lemma tracks_start: "tracks mm_start \<lparr>h_source = [], h_inners = []\<rparr>"
  by (simp add: tracks_def mm_start_def)

lemma tracks_fold:
  "tracks m h \<Longrightarrow> tracks (fold (mm_step f ob) ems m) (fold (observe f) ems h)"
  by (induction ems arbitrary: m h) (simp_all add: tracks_step)

lemma mergeMap_run_tracks: "tracks (mm_of (mergeMap_run (returning f) ob ems)) (history f ems)"
  by (simp add: mergeMap_run_sim history_def tracks_fold tracks_start)

subsection \<open>The downstream subscriber\<close>

text \<open>The inner subscriptions that are still open.\<close>

definition open_inners :: "bool list \<Rightarrow> nat" where
  "open_inners cl = length (filter Not (drop 2 cl))"

lemma filter_Not_close:
  "i < length ys \<Longrightarrow> \<not> ys ! i \<Longrightarrow> Suc (length (filter Not (ys[i := True]))) = length (filter Not ys)"
proof (induction ys arbitrary: i)
  case Nil
  then show ?case by simp
next
  case (Cons y ys)
  then show ?case by (cases i) auto
qed

lemma open_inners_close:
  "2 + j < length cl \<Longrightarrow> \<not> cl ! (2 + j) \<Longrightarrow> Suc (open_inners (cl[2 + j := True])) = open_inners cl"
  using filter_Not_close [of j "drop 2 cl"]
  by (simp add: open_inners_def drop_update_swap)

lemma open_inners_low [simp]: "i < 2 \<Longrightarrow> open_inners (cl[i := x]) = open_inners cl"
  by (simp add: open_inners_def)

lemma open_inners_append [simp]: "2 \<le> length cl \<Longrightarrow> open_inners (cl @ [False]) = Suc (open_inners cl)"
  by (simp add: open_inners_def)

lemma open_inners_zero:
  "open_inners cl = 0 \<Longrightarrow> 2 + j < length cl \<Longrightarrow> cl ! (2 + j)"
proof -
  assume z: "open_inners cl = 0" and j: "2 + j < length cl"
  from z have "filter Not (drop 2 cl) = []" by (simp add: open_inners_def)
  then have "\<forall>x \<in> set (drop 2 cl). x" by (simp add: filter_empty_conv)
  moreover from j have "drop 2 cl ! j \<in> set (drop 2 cl)" by (intro nth_mem) simp
  ultimately have "drop 2 cl ! j" by blast
  with j show ?thesis by simp
qed

text \<open>The observer has received an \<open>error\<close> or a \<open>complete\<close>.\<close>

definition ended :: "'a obs_spec \<Rightarrow> (nat \<times> 'a event) list \<Rightarrow> bool" where
  "ended ob xs = (\<exists>ev. is_terminal ev \<and> (name ob, ev) \<in> set xs)"

lemma ended_append [simp]: "ended ob (xs @ [(name ob, ev)]) = (ended ob xs \<or> is_terminal ev)"
  by (auto simp: ended_def)

lemma ended_Nil [simp]: "\<not> ended ob []"
  by (simp add: ended_def)

lemma ended_iff:
  "ended ob xs = ((name ob, Complete) \<in> set xs \<or> (\<exists>e. (name ob, Error e) \<in> set xs))"
proof
  assume "ended ob xs"
  then obtain ev where "is_terminal ev" "(name ob, ev) \<in> set xs" by (auto simp: ended_def)
  then show "(name ob, Complete) \<in> set xs \<or> (\<exists>e. (name ob, Error e) \<in> set xs)"
    by (cases ev) auto
next
  assume "(name ob, Complete) \<in> set xs \<or> (\<exists>e. (name ob, Error e) \<in> set xs)"
  then show "ended ob xs"
  proof
    assume "(name ob, Complete) \<in> set xs"
    moreover have "is_terminal Complete" by simp
    ultimately show ?thesis unfolding ended_def by blast
  next
    assume "\<exists>e. (name ob, Error e) \<in> set xs"
    then obtain e where "(name ob, Error e) \<in> set xs" by blast
    moreover have "is_terminal (Error e)" by simp
    ultimately show ?thesis unfolding ended_def by blast
  qed
qed

lemma not_ended:
  "\<not> ended ob xs \<Longrightarrow> (name ob, Complete) \<notin> set xs \<and> (name ob, Error e) \<notin> set xs"
  by (auto simp: ended_iff)

definition mm_inv :: "'a obs_spec \<Rightarrow> 'a mm \<Rightarrow> bool" where
  "mm_inv ob m =
     (2 \<le> length (m_closed m)
      \<and> (m_outer m \<longrightarrow> m_closed m ! 1)
      \<and> int (open_inners (m_closed m)) \<le> m_active m
      \<and> (m_closed m ! 0 \<longleftrightarrow> ended ob (m_out m))
      \<and> ((name ob, Complete) \<in> set (m_out m) \<longrightarrow>
           m_outer m \<and> m_active m = 0 \<and> (\<forall>e. (name ob, Error e) \<notin> set (m_out m)))
      \<and> (m_outer m \<and> m_active m = 0 \<longrightarrow> m_closed m ! 0))"

lemma mm_inv_start: "mm_inv ob mm_start"
  by (simp add: mm_inv_def mm_start_def open_inners_def)

lemma mm_inv_down_next:
  "mm_inv ob m \<Longrightarrow> mm_inv ob (mm_down_next ob v m)"
  by (auto simp: mm_inv_def mm_down_next_def dest: not_ended)

lemma terminal_cases: "is_terminal ev \<Longrightarrow> ev = Complete \<or> (\<exists>e. ev = Error e)"
  by (cases ev) auto



lemma mm_inv_inner:
  assumes he: "has_error ob" and hc: "has_complete ob" and inv: "mm_inv ob m"
  shows "mm_inv ob (mm_inner ob j ev m)"
proof -
  from inv have "2 \<le> length (m_closed m)" by (simp add: mm_inv_def)
  then have len: "0 < length (m_closed m)" "Suc 0 < length (m_closed m)" by linarith+
  show ?thesis
  proof (cases "2 + j < length (m_closed m) \<and> \<not> m_closed m ! (2 + j)")
    case False
    with inv show ?thesis by (cases ev) auto
  next
    case True
    then have oc: "Suc (open_inners ((m_closed m)[2 + j := True])) = open_inners (m_closed m)"
      using open_inners_close [of j "m_closed m"] by blast
    show ?thesis
    proof (cases ev)
      case (Next v)
      with True inv show ?thesis by (simp add: mm_inv_down_next)
    next
      case (Error e)
      with True inv he hc oc len show ?thesis
        by (auto simp: mm_inv_def mm_down_end_def nth_list_update dest: not_ended)
    next
      case Complete
      with True inv he hc oc len show ?thesis
        by (auto simp: mm_inv_def mm_down_end_def nth_list_update dest: not_ended)
    qed
  qed
qed

lemma mm_inv_inners:
  "has_error ob \<Longrightarrow> has_complete ob \<Longrightarrow> mm_inv ob m \<Longrightarrow> mm_inv ob (fold (mm_inner ob j) evs m)"
  by (induction evs arbitrary: m) (simp_all add: mm_inv_inner)

lemma mm_inv_subscribe:
  assumes "mm_inv ob m" and "\<not> m_closed m ! 1"
  shows "mm_inv ob (m\<lparr>m_index := i, m_active := m_active m + 1, m_closed := m_closed m @ [False]\<rparr>)"
proof -
  from assms(1) have "2 \<le> length (m_closed m)" by (simp add: mm_inv_def)
  then have len: "0 < length (m_closed m)" "Suc 0 < length (m_closed m)" by linarith+
  with assms show ?thesis
    by (auto simp: mm_inv_def nth_append dest: not_ended)
qed

lemma mm_inv_step:
  assumes he: "has_error ob" and hc: "has_complete ob" and inv: "mm_inv ob m"
  shows "mm_inv ob (mm_step f ob em m)"
proof (cases em)
  case (Inner j ev)
  with assms show ?thesis by (simp add: mm_inv_inner)
next
  case (Outer ev)
  from inv have "2 \<le> length (m_closed m)" by (simp add: mm_inv_def)
  then have len: "0 < length (m_closed m)" "Suc 0 < length (m_closed m)" by linarith+
  show ?thesis
  proof (cases ev)
    case (Next v)
    show ?thesis
    proof (cases "m_closed m ! 1")
      case True
      with Outer Next inv show ?thesis by simp
    next
      case False
      show ?thesis
      proof (cases "f v (m_index m)")
        case (Inl err)
        with Outer Next False inv he hc len show ?thesis
          by (auto simp: mm_inv_def mm_down_end_def dest: not_ended)
      next
        case (Inr evs)
        from mm_inv_subscribe [OF inv False, of "m_index m + 1"]
        have "mm_inv ob (fold (mm_inner ob (length (m_closed m) - 2)) evs
            (m\<lparr>m_index := m_index m + 1, m_active := m_active m + 1,
               m_closed := m_closed m @ [False]\<rparr>))"
          using he hc by (intro mm_inv_inners) simp_all
        with Outer Next False Inr show ?thesis by simp
      qed
    qed
  next
    case (Error e)
    with Outer inv he hc len show ?thesis
      by (auto simp: mm_inv_def mm_down_end_def nth_list_update dest: not_ended)
  next
    case Complete
    with Outer inv he hc len show ?thesis
      by (auto simp: mm_inv_def mm_down_end_def nth_list_update dest: not_ended)
  qed
qed

lemma mm_inv_fold:
  "has_error ob \<Longrightarrow> has_complete ob \<Longrightarrow> mm_inv ob m \<Longrightarrow> mm_inv ob (fold (mm_step f ob) ems m)"
  by (induction ems arbitrary: m) (simp_all add: mm_inv_step)

lemma mergeMap_run_inv:
  "has_error ob \<Longrightarrow> has_complete ob \<Longrightarrow> mm_inv ob (mm_of (mergeMap_run (returning f) ob ems))"
  by (simp add: mergeMap_run_sim mm_inv_fold mm_inv_start)


lemma fold_mm_inner_closed:
  "\<not> (2 + j < length (m_closed m) \<and> \<not> m_closed m ! (2 + j)) \<Longrightarrow> fold (mm_inner ob j) evs m = m"
proof (induction evs)
  case Nil
  show ?case by simp
next
  case (Cons ev evs)
  then have "mm_inner ob j ev m = m" by (cases ev) auto
  with Cons show ?case by simp
qed

lemma fold_mm_inner_nexts:
  "2 + j < length (m_closed m) \<Longrightarrow> \<not> m_closed m ! (2 + j) \<Longrightarrow> \<not> m_closed m ! 0 \<Longrightarrow>
   fold (mm_inner ob j) (map Next vs) m =
     m\<lparr>m_out := m_out m @ map (Pair (name ob)) (filter (present ob) (map Next vs))\<rparr>"
  by (induction vs arbitrary: m) (simp_all add: mm_down_next_def)

lemma fold_mm_inner_error:
  assumes j: "2 + j < length (m_closed m)" and oj: "\<not> m_closed m ! (2 + j)"
    and o0: "\<not> m_closed m ! 0" and he: "has_error ob"
  shows "m_out (fold (mm_inner ob j) (map Next vs @ Error e # rest) m) =
     m_out m @ map (Pair (name ob)) (filter (present ob) (map Next vs)) @ [(name ob, Error e)]"
proof -
  let ?m1 = "m\<lparr>m_out := m_out m @ map (Pair (name ob)) (filter (present ob) (map Next vs))\<rparr>"
  let ?m2 = "mm_inner ob j (Error e) ?m1"
  have "fold (mm_inner ob j) (map Next vs @ Error e # rest) m = fold (mm_inner ob j) rest ?m2"
    using fold_mm_inner_nexts [OF j oj o0, of ob vs] by simp
  moreover have "m_closed ?m2 ! (2 + j)" using j oj o0
    by (simp add: mm_down_end_def nth_list_update)
  then have "fold (mm_inner ob j) rest ?m2 = ?m2" by (intro fold_mm_inner_closed) simp
  moreover have "m_out ?m2 =
      m_out m @ map (Pair (name ob)) (filter (present ob) (map Next vs)) @ [(name ob, Error e)]"
    using j oj o0 he by (simp add: mm_down_end_def)
  ultimately show ?thesis by simp
qed

lemma no_active_iff:
  "length (filter (\<lambda>x. \<not> P x) xs) = 0 \<longleftrightarrow> list_all P xs"
  by (induction xs) auto



lemmas eval_mergeMap = mergeMap_run_from_def returning_def emitting_def deferring_def
  history_def h_emit_def

text \<open>\<open>Observable.of(1, 2).mergeMap(v => Observable.of(10 * v, 10 * v + 1))\<close>, the way
  \<open>Observable.merge\<close> subscribes synchronous Observables, and the same run with \<open>emitting\<close>
  producers.\<close>

lemma mergeMap_of_synchronous:
  "out (subscribe (Observable_mergeMap (\<lambda>v i. Inr (Observable_of [10 * v, 10 * v + 1]))
                     (Observable_of [1::int, 2]))
         (user_observer (collector 0)) None init_state)
     = [(0, Next 10), (0, Next 11), (0, Next 20), (0, Next 21), (0, Complete)]
   \<and> out (mergeMap_run_from (returning (\<lambda>v i. Inr [Next (10 * v), Next (10 * v + 1), Complete]))
         (collector 0) [Next (1::int), Next 2, Complete] [])
     = [(0, Next 10), (0, Next 11), (0, Next 20), (0, Next 21), (0, Complete)]"
  by (simp add: eval_defs eval_flattening eval_mergeMap)

text \<open>A callback for the runs below: it returns a deferred Observable at index 0; later it
  throws 4 on the value 2, and otherwise returns an Observable that emits 5, an \<open>error\<close>
  6 and 7 while it is subscribed.\<close>

definition sample_callback :: "int \<Rightarrow> int \<Rightarrow> int + int event list" where
  "sample_callback v i =
     (if i = 0 then Inr [] else if v = 2 then Inl 4 else Inr [Next 5, Error 6, Next 7])"



section \<open>Chains of controllers\<close>

text \<open>A property that holds of the pending snapshots and the state when a dispatch
  starts, and that every step of the dispatch keeps, holds when the dispatch ends.\<close>

lemma dispatch_invariant:
  assumes start: "I st s"
    and pop: "\<And>c st s. I ((c, []) # st) s \<Longrightarrow> I st s"
    and skip: "\<And>c l h ls st s. I ((c, (l, h) # ls) # st) s \<Longrightarrow> \<not> registered c l s \<Longrightarrow>
                 I ((c, ls) # st) s"
    and remove: "\<And>c l p k ls st s. I ((c, (l, RemoveListener p k) # ls) # st) s \<Longrightarrow>
                 registered c l s \<Longrightarrow> I ((c, ls) # st) (removeEventListener p k s)"
    and unreg: "\<And>c l k ls st s. I ((c, (l, Unregister k) # ls) # st) s \<Longrightarrow>
                 registered c l s \<Longrightarrow> I ((c, ls) # st) (unregister k s)"
    and child: "\<And>c l d ls st s. I ((c, (l, AbortChild d) # ls) # st) s \<Longrightarrow>
                 registered c l s \<Longrightarrow> d < length (ctrls s) \<Longrightarrow> \<not> aborted (ctrls s ! d) \<Longrightarrow>
                 I ((d, listeners (ctrls s ! d)) # (c, ls) # st) (mark_aborted d s)"
    and stay: "\<And>c l d ls st s. I ((c, (l, AbortChild d) # ls) # st) s \<Longrightarrow>
                 registered c l s \<Longrightarrow> \<not> (d < length (ctrls s) \<and> \<not> aborted (ctrls s ! d)) \<Longrightarrow>
                 I ((c, ls) # st) s"
  shows "I [] (dispatch st s)"
  using start
proof (induction st s rule: dispatch.induct)
  case (1 s)
  then show ?case by simp
next
  case (2 c st s)
  from pop [OF "2.prems"] have "I st s" .
  with "2.IH" show ?case by simp
next
  case (3 c l h ls st s)
  show ?case
  proof (cases "registered c l s")
    case False
    with skip [OF "3.prems"] have "I ((c, ls) # st) s" by simp
    with "3.IH"(1) False show ?thesis by simp
  next
    case True
    show ?thesis
    proof (cases h)
      case (AbortChild d)
      show ?thesis
      proof (cases "d < length (ctrls s) \<and> \<not> aborted (ctrls s ! d)")
        case go: True
        with child [of c l d ls st s] "3.prems" True AbortChild
        have "I ((d, listeners (ctrls s ! d)) # (c, ls) # st) (mark_aborted d s)" by simp
        with "3.IH"(2) [OF _ AbortChild go] True go AbortChild show ?thesis by simp
      next
        case stop: False
        with stay [of c l d ls st s] "3.prems" True AbortChild
        have "I ((c, ls) # st) s" by simp
        with "3.IH"(3) [OF _ AbortChild stop] True stop AbortChild show ?thesis by auto
      qed
    next
      case (RemoveListener p k)
      with remove [of c l p k ls st s] "3.prems" True
      have "I ((c, ls) # st) (removeEventListener p k s)" by simp
      with "3.IH"(4) [OF _ RemoveListener] True RemoveListener show ?thesis by simp
    next
      case (Unregister k)
      with unreg [of c l k ls st s] "3.prems" True
      have "I ((c, ls) # st) (unregister k s)" by simp
      with "3.IH"(5) [OF _ Unregister] True Unregister show ?thesis by simp
    qed
  qed
qed


lemma listeners_of_removeEventListener:
  "listeners_of d (removeEventListener q k s) =
     (if d = q then filter (\<lambda>x. fst x \<noteq> k) (listeners_of d s) else listeners_of d s)"
  by (auto simp: listeners_of_def removeEventListener_def)

lemma listeners_of_mark_aborted [simp]: "listeners_of d (mark_aborted q s) = listeners_of d s"
  by (cases "d = q") (auto simp: listeners_of_def mark_aborted_def)

lemma listeners_of_unregister [simp]: "listeners_of d (unregister k s) = listeners_of d s"
  by (simp add: listeners_of_def unregister_def)

lemma registered_removeEventListener:
  "registered d l (removeEventListener q k s) = (registered d l s \<and> \<not> (d = q \<and> l = k))"
  by (auto simp: registered_def listeners_of_removeEventListener)

lemma registered_mark_aborted [simp]: "registered d l (mark_aborted q s) = registered d l s"
  by (simp add: registered_def)

lemma registered_unregister [simp]: "registered d l (unregister k s) = registered d l s"
  by (simp add: registered_def)

lemma length_ctrls_simps [simp]:
  "length (ctrls (removeEventListener q k s)) = length (ctrls s)"
  "length (ctrls (mark_aborted d s)) = length (ctrls s)"
  "length (ctrls (unregister k s)) = length (ctrls s)"
  by (simp_all add: removeEventListener_def mark_aborted_def unregister_def)

lemma fired_simps [simp]:
  "fired (removeEventListener q k s) = fired s"
  "fired (mark_aborted d s) = fired s @ [d]"
  "fired (unregister k s) = fired s"
  by (simp_all add: removeEventListener_def mark_aborted_def unregister_def)

lemma next_lid_simps [simp]:
  "next_lid (removeEventListener q k s) = next_lid s"
  "next_lid (mark_aborted d s) = next_lid s"
  "next_lid (unregister k s) = next_lid s"
  by (simp_all add: removeEventListener_def mark_aborted_def unregister_def)

text \<open>A listener that is waiting in one of the pending snapshots.\<close>

definition pending :: "(nat \<times> (nat \<times> handler) list) list \<Rightarrow> nat \<Rightarrow> nat \<Rightarrow> handler \<Rightarrow> bool" where
  "pending st d l x = (\<exists>ls. (d, ls) \<in> set st \<and> (l, x) \<in> set ls)"

lemma pending_Nil [simp]: "\<not> pending [] d l x"
  by (simp add: pending_def)

lemma pending_Cons:
  "pending ((c, ls) # st) d l x = ((d = c \<and> (l, x) \<in> set ls) \<or> pending st d l x)"
  by (auto simp: pending_def)

text \<open>
  The link that \<open>chainAbort(p, c)\<close> makes, with \<open>h\<close> the identity of its \<open>handler\<close> and \<open>k\<close>
  that of its cleanup listener, as it stands in a state \<open>t\<close> while the snapshots \<open>st\<close>
  are pending: the cleanup listener is on the child and nothing can remove it; only
  the child carries a listener that removes \<open>handler\<close>; every handler aborts a
  controller created after the one it is registered on; while the child is not
  aborted, \<open>handler\<close> is registered on the parent and no snapshot of the child is
  pending; once the child is aborted, \<open>handler\<close> is gone from the parent or the cleanup
  listener is still waiting in a snapshot of the child; and the child's \<open>abort\<close> event
  has been dispatched once if the child is aborted and never otherwise. With \<open>live\<close>
  set (the parent was not aborted when the link was made), once the parent is aborted
  the child is aborted or \<open>handler\<close> is waiting in a snapshot of the parent.
\<close>

definition static_ok ::
  "nat \<Rightarrow> nat \<Rightarrow> nat \<Rightarrow> nat \<Rightarrow> nat \<Rightarrow> handler \<Rightarrow> bool" where
  "static_ok p c h k d x =
     ((x = RemoveListener p h \<longrightarrow> d = c) \<and> x \<noteq> RemoveListener c k
      \<and> (\<forall>b. x = AbortChild b \<longrightarrow> d < b))"

definition link_inv ::
  "bool \<Rightarrow> nat \<Rightarrow> nat \<Rightarrow> nat \<Rightarrow> nat \<Rightarrow> (nat \<times> (nat \<times> handler) list) list \<Rightarrow> 'a state \<Rightarrow> bool" where
  "link_inv live p c h k st t =
     ((p < c \<and> c < length (ctrls t) \<and> h < next_lid t \<and> k < next_lid t)
      \<and> (\<forall>d l x. (l, x) \<in> set (listeners_of d t) \<longrightarrow> static_ok p c h k d x)
      \<and> (\<forall>d l x. pending st d l x \<longrightarrow> static_ok p c h k d x)
      \<and> (\<not> is_aborted c t \<longrightarrow> (h, AbortChild c) \<in> set (listeners_of p t))
      \<and> (\<not> is_aborted c t \<longrightarrow> (\<forall>ls. (c, ls) \<notin> set st))
      \<and> (k, RemoveListener p h) \<in> set (listeners_of c t)
      \<and> (is_aborted c t \<longrightarrow> \<not> registered p h t \<or> pending st c k (RemoveListener p h))
      \<and> count_list (fired t) c = (if is_aborted c t then 1 else 0)
      \<and> (live \<longrightarrow> is_aborted p t \<longrightarrow> is_aborted c t \<or> pending st p h (AbortChild c)))"

lemma link_invD:
  assumes "link_inv v p c h k st t"
  shows "p < c" "c < length (ctrls t)" "h < next_lid t" "k < next_lid t"
    and "\<And>d l x. (l, x) \<in> set (listeners_of d t) \<Longrightarrow> static_ok p c h k d x"
    and "\<And>d l x. pending st d l x \<Longrightarrow> static_ok p c h k d x"
    and "\<not> is_aborted c t \<Longrightarrow> (h, AbortChild c) \<in> set (listeners_of p t)"
    and "\<And>ls. \<not> is_aborted c t \<Longrightarrow> (c, ls) \<notin> set st"
    and "(k, RemoveListener p h) \<in> set (listeners_of c t)"
    and "is_aborted c t \<Longrightarrow> \<not> registered p h t \<or> pending st c k (RemoveListener p h)"
    and "count_list (fired t) c = (if is_aborted c t then 1 else 0)"
    and "v \<Longrightarrow> is_aborted p t \<Longrightarrow> is_aborted c t \<or> pending st p h (AbortChild c)"
  using assms unfolding link_inv_def by blast+

lemma link_invI:
  assumes "p < c" "c < length (ctrls t)" "h < next_lid t" "k < next_lid t"
    and "\<And>d l x. (l, x) \<in> set (listeners_of d t) \<Longrightarrow> static_ok p c h k d x"
    and "\<And>d l x. pending st d l x \<Longrightarrow> static_ok p c h k d x"
    and "\<not> is_aborted c t \<Longrightarrow> (h, AbortChild c) \<in> set (listeners_of p t)"
    and "\<And>ls. \<not> is_aborted c t \<Longrightarrow> (c, ls) \<notin> set st"
    and "(k, RemoveListener p h) \<in> set (listeners_of c t)"
    and "is_aborted c t \<Longrightarrow> \<not> registered p h t \<or> pending st c k (RemoveListener p h)"
    and "count_list (fired t) c = (if is_aborted c t then 1 else 0)"
    and "v \<Longrightarrow> is_aborted p t \<Longrightarrow> is_aborted c t \<or> pending st p h (AbortChild c)"
  shows "link_inv v p c h k st t"
  using assms unfolding link_inv_def by blast

lemma link_inv_pop:
  assumes inv: "link_inv v p c h k ((d, []) # st) t"
  shows "link_inv v p c h k st t"
proof (rule link_invI)
  note D = link_invD [OF inv]
  show "p < c" "c < length (ctrls t)" "h < next_lid t" "k < next_lid t"
    "(k, RemoveListener p h) \<in> set (listeners_of c t)"
    "count_list (fired t) c = (if is_aborted c t then 1 else 0)"
    by (rule D)+
  show "static_ok p c h k d' x" if "(l, x) \<in> set (listeners_of d' t)" for d' l x
    using that by (rule D(5))
  show "static_ok p c h k d' x" if "pending st d' l x" for d' l x
    using that D(6) [of d' l x] by (simp add: pending_Cons)
  show "(h, AbortChild c) \<in> set (listeners_of p t)" if "\<not> is_aborted c t"
    using that by (rule D(7))
  show "(c, ls) \<notin> set st" if "\<not> is_aborted c t" for ls
    using D(8) [OF that, of ls] by simp
  show "\<not> registered p h t \<or> pending st c k (RemoveListener p h)" if "is_aborted c t"
    using D(10) [OF that] by (simp add: pending_Cons)
  show "is_aborted c t \<or> pending st p h (AbortChild c)" if v "is_aborted p t"
    using D(12) [OF that] by (simp add: pending_Cons)
qed


lemma registeredI: "(l, x) \<in> set (listeners_of d t) \<Longrightarrow> registered d l t"
  by (force simp: registered_def)

lemma link_inv_skip:
  assumes inv: "link_inv v p c h k ((d, (l, x) # ls) # st) t" and nr: "\<not> registered d l t"
  shows "link_inv v p c h k ((d, ls) # st) t"
proof (rule link_invI)
  note D = link_invD [OF inv]
  show "p < c" "c < length (ctrls t)" "h < next_lid t" "k < next_lid t"
    "(k, RemoveListener p h) \<in> set (listeners_of c t)"
    "count_list (fired t) c = (if is_aborted c t then 1 else 0)"
    by (rule D)+
  show "static_ok p c h k d' x'" if "(l', x') \<in> set (listeners_of d' t)" for d' l' x'
    using that by (rule D(5))
  show "static_ok p c h k d' x'" if "pending ((d, ls) # st) d' l' x'" for d' l' x'
    using that D(6) [of d' l' x'] by (auto simp: pending_Cons)
  show "(h, AbortChild c) \<in> set (listeners_of p t)" if "\<not> is_aborted c t"
    using that by (rule D(7))
  show "(c, ls') \<notin> set ((d, ls) # st)" if "\<not> is_aborted c t" for ls'
    using D(8) [OF that, of ls'] D(8) [OF that, of "(l, x) # ls"] by auto
  show "\<not> registered p h t \<or> pending ((d, ls) # st) c k (RemoveListener p h)" if "is_aborted c t"
  proof -
    from D(9) have "registered c k t" by (rule registeredI)
    with nr have "\<not> (d = c \<and> l = k)" by auto
    with D(10) [OF that] show ?thesis by (auto simp: pending_Cons)
  qed
  show "is_aborted c t \<or> pending ((d, ls) # st) p h (AbortChild c)" if v "is_aborted p t"
  proof (cases "is_aborted c t")
    case True
    then show ?thesis by simp
  next
    case False
    then have "registered p h t" using D(7) registeredI by blast
    with nr have "\<not> (d = p \<and> l = h)" by auto
    with D(12) [OF that] False show ?thesis by (auto simp: pending_Cons)
  qed
qed

lemma link_inv_remove:
  assumes inv: "link_inv v p c h k ((d, (l, RemoveListener q k') # ls) # st) t"
    and r: "registered d l t"
  shows "link_inv v p c h k ((d, ls) # st) (removeEventListener q k' t)"
proof (rule link_invI)
  note D = link_invD [OF inv]
  let ?t = "removeEventListener q k' t"
  have head: "static_ok p c h k d (RemoveListener q k')"
    by (rule D(6) [of d l]) (simp add: pending_Cons)
  have sub: "(l', x') \<in> set (listeners_of d' t)" if "(l', x') \<in> set (listeners_of d' ?t)" for d' l' x'
    using that by (auto simp: listeners_of_removeEventListener split: if_splits)
  show "p < c" "c < length (ctrls ?t)" "h < next_lid ?t" "k < next_lid ?t"
    using D(1-4) by simp_all
  show "static_ok p c h k d' x'" if "(l', x') \<in> set (listeners_of d' ?t)" for d' l' x'
    using sub [OF that] by (rule D(5))
  show "static_ok p c h k d' x'" if "pending ((d, ls) # st) d' l' x'" for d' l' x'
    using that D(6) [of d' l' x'] by (auto simp: pending_Cons)
  show "(h, AbortChild c) \<in> set (listeners_of p ?t)" if na: "\<not> is_aborted c ?t"
  proof -
    from na have na': "\<not> is_aborted c t" by simp
    have "\<not> (q = p \<and> k' = h)"
    proof
      assume "q = p \<and> k' = h"
      with head have "d = c" by (simp add: static_ok_def)
      with D(8) [OF na', of "(l, RemoveListener q k') # ls"] show False by simp
    qed
    with D(7) [OF na'] show ?thesis
      by (auto simp: listeners_of_removeEventListener)
  qed
  show "(c, ls') \<notin> set ((d, ls) # st)" if "\<not> is_aborted c ?t" for ls'
  proof -
    from that have na': "\<not> is_aborted c t" by simp
    from D(8) [OF na', of ls'] D(8) [OF na', of "(l, RemoveListener q k') # ls"]
    show ?thesis by auto
  qed
  show "(k, RemoveListener p h) \<in> set (listeners_of c ?t)"
  proof -
    from head have "\<not> (q = c \<and> k' = k)" by (auto simp: static_ok_def)
    with D(9) show ?thesis by (auto simp: listeners_of_removeEventListener)
  qed
  show "\<not> registered p h ?t \<or> pending ((d, ls) # st) c k (RemoveListener p h)"
    if "is_aborted c ?t"
  proof (cases "q = p \<and> k' = h")
    case True
    then show ?thesis by (simp add: registered_removeEventListener)
  next
    case False
    from that have "is_aborted c t" by simp
    from D(10) [OF this] False show ?thesis
      by (auto simp: pending_Cons registered_removeEventListener)
  qed
  show "count_list (fired ?t) c = (if is_aborted c ?t then 1 else 0)"
    using D(11) by simp
  show "is_aborted c ?t \<or> pending ((d, ls) # st) p h (AbortChild c)" if v "is_aborted p ?t"
  proof -
    from that(2) have "is_aborted p t" by simp
    from D(12) [OF that(1) this] show ?thesis by (auto simp: pending_Cons)
  qed
qed

lemma link_inv_unreg:
  assumes inv: "link_inv v p c h k ((d, (l, Unregister k') # ls) # st) t"
    and r: "registered d l t"
  shows "link_inv v p c h k ((d, ls) # st) (unregister k' t)"
proof (rule link_invI)
  note D = link_invD [OF inv]
  let ?t = "unregister k' t"
  show "p < c" "c < length (ctrls ?t)" "h < next_lid ?t" "k < next_lid ?t"
    using D(1-4) by simp_all
  show "static_ok p c h k d' x'" if "(l', x') \<in> set (listeners_of d' ?t)" for d' l' x'
    using that D(5) [of l' x' d'] by simp
  show "static_ok p c h k d' x'" if "pending ((d, ls) # st) d' l' x'" for d' l' x'
    using that D(6) [of d' l' x'] by (auto simp: pending_Cons)
  show "(h, AbortChild c) \<in> set (listeners_of p ?t)" if "\<not> is_aborted c ?t"
    using that D(7) by simp
  show "(c, ls') \<notin> set ((d, ls) # st)" if "\<not> is_aborted c ?t" for ls'
  proof -
    from that have na': "\<not> is_aborted c t" by simp
    from D(8) [OF na', of ls'] D(8) [OF na', of "(l, Unregister k') # ls"]
    show ?thesis by auto
  qed
  show "(k, RemoveListener p h) \<in> set (listeners_of c ?t)"
    using D(9) by simp
  show "\<not> registered p h ?t \<or> pending ((d, ls) # st) c k (RemoveListener p h)"
    if "is_aborted c ?t"
  proof -
    from that have "is_aborted c t" by simp
    from D(10) [OF this] show ?thesis by (auto simp: pending_Cons)
  qed
  show "count_list (fired ?t) c = (if is_aborted c ?t then 1 else 0)"
    using D(11) by simp
  show "is_aborted c ?t \<or> pending ((d, ls) # st) p h (AbortChild c)" if v "is_aborted p ?t"
  proof -
    from that(2) have "is_aborted p t" by simp
    from D(12) [OF that(1) this] show ?thesis by (auto simp: pending_Cons)
  qed
qed

lemma link_inv_stay:
  assumes inv: "link_inv v p c h k ((d, (l, AbortChild b) # ls) # st) t"
    and r: "registered d l t"
    and nb: "\<not> (b < length (ctrls t) \<and> \<not> aborted (ctrls t ! b))"
  shows "link_inv v p c h k ((d, ls) # st) t"
proof (rule link_invI)
  note D = link_invD [OF inv]
  show "p < c" "c < length (ctrls t)" "h < next_lid t" "k < next_lid t"
    "(k, RemoveListener p h) \<in> set (listeners_of c t)"
    "count_list (fired t) c = (if is_aborted c t then 1 else 0)"
    by (rule D)+
  show "static_ok p c h k d' x'" if "(l', x') \<in> set (listeners_of d' t)" for d' l' x'
    using that by (rule D(5))
  show "static_ok p c h k d' x'" if "pending ((d, ls) # st) d' l' x'" for d' l' x'
    using that D(6) [of d' l' x'] by (auto simp: pending_Cons)
  show "(h, AbortChild c) \<in> set (listeners_of p t)" if "\<not> is_aborted c t"
    using that by (rule D(7))
  show "(c, ls') \<notin> set ((d, ls) # st)" if "\<not> is_aborted c t" for ls'
    using D(8) [OF that, of ls'] D(8) [OF that, of "(l, AbortChild b) # ls"] by auto
  show "\<not> registered p h t \<or> pending ((d, ls) # st) c k (RemoveListener p h)" if "is_aborted c t"
    using D(10) [OF that] by (auto simp: pending_Cons)
  show "is_aborted c t \<or> pending ((d, ls) # st) p h (AbortChild c)" if v "is_aborted p t"
  proof (cases "b = c")
    case True
    with nb D(2) show ?thesis by (simp add: is_aborted_def)
  next
    case False
    with D(12) [OF that] show ?thesis by (auto simp: pending_Cons)
  qed
qed


lemma link_inv_child:
  assumes inv: "link_inv v p c h k ((d, (l, AbortChild b) # ls) # st) t"
    and r: "registered d l t"
    and b: "b < length (ctrls t)" and nb: "\<not> aborted (ctrls t ! b)"
  shows "link_inv v p c h k ((b, listeners (ctrls t ! b)) # (d, ls) # st) (mark_aborted b t)"
proof (rule link_invI)
  note D = link_invD [OF inv]
  let ?t = "mark_aborted b t"
  let ?st = "(b, listeners (ctrls t ! b)) # (d, ls) # st"
  from b have lb: "listeners (ctrls t ! b) = listeners_of b t" by (simp add: listeners_of_def)
  from b have ab: "is_aborted c ?t = (is_aborted c t \<or> c = b)" for c
    by (auto simp: is_aborted_mark_aborted)
  from b nb have nab: "\<not> is_aborted b t" by (simp add: is_aborted_def)
  show "p < c" "c < length (ctrls ?t)" "h < next_lid ?t" "k < next_lid ?t"
    using D(1-4) by simp_all
  show "static_ok p c h k d' x'" if "(l', x') \<in> set (listeners_of d' ?t)" for d' l' x'
    using that D(5) [of l' x' d'] by simp
  show "static_ok p c h k d' x'" if "pending ?st d' l' x'" for d' l' x'
    using that D(6) [of d' l' x'] D(5) [of l' x' d'] by (auto simp: pending_Cons lb)
  show "(h, AbortChild c) \<in> set (listeners_of p ?t)" if "\<not> is_aborted c ?t"
    using that D(7) by (simp add: ab)
  show "(c, ls') \<notin> set ?st" if "\<not> is_aborted c ?t" for ls'
  proof -
    from that have na': "\<not> is_aborted c t" and "c \<noteq> b" by (simp_all add: ab)
    with D(8) [OF na', of ls'] D(8) [OF na', of "(l, AbortChild b) # ls"]
    show ?thesis by auto
  qed
  show "(k, RemoveListener p h) \<in> set (listeners_of c ?t)"
    using D(9) by simp
  show "\<not> registered p h ?t \<or> pending ?st c k (RemoveListener p h)" if "is_aborted c ?t"
  proof (cases "c = b")
    case True
    with D(9) show ?thesis by (simp add: pending_Cons lb)
  next
    case False
    with that have "is_aborted c t" by (simp add: ab)
    from D(10) [OF this] show ?thesis by (auto simp: pending_Cons)
  qed
  show "count_list (fired ?t) c = (if is_aborted c ?t then 1 else 0)"
    using D(11) nab by (auto simp: ab)
  show "is_aborted c ?t \<or> pending ?st p h (AbortChild c)" if v "is_aborted p ?t"
  proof (cases "b = c")
    case True
    with b have "is_aborted c ?t" by (simp add: is_aborted_mark_aborted)
    then show ?thesis by simp
  next
    case False
    show ?thesis
    proof (cases "is_aborted p t")
      case True
      from D(12) [OF that(1) True] False show ?thesis by (auto simp: pending_Cons ab)
    next
      case np: False
      with that(2) have pb: "p = b" by (simp add: ab)
      show ?thesis
      proof (cases "is_aborted c t")
        case True
        then show ?thesis by (simp add: ab)
      next
        case False
        from D(7) [OF this] have "pending ?st p h (AbortChild c)"
          unfolding pending_Cons lb pb by simp
        then show ?thesis by simp
      qed
    qed
  qed
qed

lemma link_inv_dispatch:
  assumes "link_inv v p c h k st t"
  shows "link_inv v p c h k [] (dispatch st t)"
  using assms
proof (rule dispatch_invariant [where I = "link_inv v p c h k"])
  show "link_inv v p c h k st t" if "link_inv v p c h k ((d, []) # st) t" for d st and t :: "'a state"
    using that by (rule link_inv_pop)
  show "link_inv v p c h k ((d, ls) # st) t"
    if "link_inv v p c h k ((d, (l, x) # ls) # st) t" "\<not> registered d l t"
    for d l x ls st and t :: "'a state"
    using that by (rule link_inv_skip)
  show "link_inv v p c h k ((d, ls) # st) (removeEventListener q k' t)"
    if "link_inv v p c h k ((d, (l, RemoveListener q k') # ls) # st) t" "registered d l t"
    for d l q k' ls st and t :: "'a state"
    using that by (rule link_inv_remove)
  show "link_inv v p c h k ((d, ls) # st) (unregister k' t)"
    if "link_inv v p c h k ((d, (l, Unregister k') # ls) # st) t" "registered d l t"
    for d l k' ls st and t :: "'a state"
    using that by (rule link_inv_unreg)
  show "link_inv v p c h k ((b, listeners (ctrls t ! b)) # (d, ls) # st) (mark_aborted b t)"
    if "link_inv v p c h k ((d, (l, AbortChild b) # ls) # st) t" "registered d l t"
      "b < length (ctrls t)" "\<not> aborted (ctrls t ! b)"
    for d l b ls st and t :: "'a state"
    using that by (rule link_inv_child)
  show "link_inv v p c h k ((d, ls) # st) t"
    if "link_inv v p c h k ((d, (l, AbortChild b) # ls) # st) t" "registered d l t"
      "\<not> (b < length (ctrls t) \<and> \<not> aborted (ctrls t ! b))"
    for d l b ls st and t :: "'a state"
    using that by (rule link_inv_stay)
qed

text \<open>The link between two dispatches, and what \<open>abort\<close> of any controller makes of it.\<close>

definition linked :: "bool \<Rightarrow> nat \<Rightarrow> nat \<Rightarrow> nat \<Rightarrow> nat \<Rightarrow> 'a state \<Rightarrow> bool" where
  "linked live p c h k t = link_inv live p c h k [] t"

lemma link_inv_start:
  assumes l: "linked v p c h k t" and q: "q < length (ctrls t)" and nq: "\<not> aborted (ctrls t ! q)"
  shows "link_inv v p c h k [(q, listeners (ctrls t ! q))] (mark_aborted q t)"
proof (rule link_invI)
  note D = link_invD [OF l [unfolded linked_def]]
  let ?t = "mark_aborted q t"
  let ?st = "[(q, listeners (ctrls t ! q))]"
  from q have lq: "listeners (ctrls t ! q) = listeners_of q t" by (simp add: listeners_of_def)
  from q have ab: "is_aborted c ?t = (is_aborted c t \<or> c = q)" for c
    by (auto simp: is_aborted_mark_aborted)
  from q nq have naq: "\<not> is_aborted q t" by (simp add: is_aborted_def)
  show "p < c" "c < length (ctrls ?t)" "h < next_lid ?t" "k < next_lid ?t"
    using D(1-4) by simp_all
  show "static_ok p c h k d' x'" if "(l', x') \<in> set (listeners_of d' ?t)" for d' l' x'
    using that D(5) [of l' x' d'] by simp
  show "static_ok p c h k d' x'" if "pending ?st d' l' x'" for d' l' x'
    using that D(5) [of l' x' d'] by (auto simp: pending_Cons lq)
  show "(h, AbortChild c) \<in> set (listeners_of p ?t)" if "\<not> is_aborted c ?t"
    using that D(7) by (simp add: ab)
  show "(c, ls') \<notin> set ?st" if "\<not> is_aborted c ?t" for ls'
    using that by (auto simp: ab)
  show "(k, RemoveListener p h) \<in> set (listeners_of c ?t)"
    using D(9) by simp
  show "\<not> registered p h ?t \<or> pending ?st c k (RemoveListener p h)" if "is_aborted c ?t"
  proof (cases "c = q")
    case True
    with D(9) show ?thesis by (simp add: pending_Cons lq)
  next
    case False
    with that have "is_aborted c t" by (simp add: ab)
    from D(10) [OF this] show ?thesis by simp
  qed
  show "count_list (fired ?t) c = (if is_aborted c ?t then 1 else 0)"
    using D(11) naq by (auto simp: ab)
  show "is_aborted c ?t \<or> pending ?st p h (AbortChild c)" if v "is_aborted p ?t"
  proof (cases "is_aborted c t")
    case True
    then show ?thesis by (simp add: ab)
  next
    case False
    show ?thesis
    proof (cases "is_aborted p t")
      case True
      from D(12) [OF that(1) True] False show ?thesis by simp
    next
      case np: False
      with that(2) have pq: "p = q" by (simp add: ab)
      from D(7) [OF False] have "pending ?st p h (AbortChild c)"
        unfolding pending_Cons lq pq by simp
      then show ?thesis by simp
    qed
  qed
qed

lemma linked_abort: "linked v p c h k t \<Longrightarrow> linked v p c h k (abort q t)"
proof -
  assume l: "linked v p c h k t"
  show ?thesis
  proof (cases "q < length (ctrls t) \<and> \<not> aborted (ctrls t ! q)")
    case True
    then have "link_inv v p c h k [(q, listeners (ctrls t ! q))] (mark_aborted q t)"
      using link_inv_start [OF l] by blast
    then have "link_inv v p c h k [] (abort q t)"
      using True link_inv_dispatch by (simp add: abort_def)
    then show ?thesis
      unfolding linked_def by simp
  next
    case False
    with l show ?thesis by (auto simp: abort_def)
  qed
qed

lemma linked_parent_aborted:
  assumes l: "linked True p c h k t" and ap: "is_aborted p t"
  shows "is_aborted c t" and "count_list (fired t) c = 1"
proof -
  note D = link_invD [OF l [unfolded linked_def]]
  from D(12) [OF TrueI ap] show c: "is_aborted c t" by simp
  with D(11) show "count_list (fired t) c = 1" by simp
qed

lemma linked_removed: "linked v p c h k t \<Longrightarrow> is_aborted c t \<Longrightarrow> \<not> registered p h t"
  using link_invD(10) [of v p c h k "[]" t] by (simp add: linked_def)


subsection \<open>What the library and its callers do with controllers\<close>

text \<open>
  \<open>New\<close> is \<open>new AbortController()\<close>; \<open>Chain p\<close> is \<open>new AbortController()\<close> followed by
  \<open>chainAbort(p, ...)\<close> of the new controller, which is how \<open>subscribe\<close>, \<open>takeUntil\<close>
  and \<open>switchMap\<close> call \<open>chainAbort\<close>; \<open>Listen c n\<close> is the Subject registering its
  handler for subscriber \<open>n\<close> on controller \<open>c\<close>; \<open>Abort q\<close> is \<open>abort()\<close> on controller \<open>q\<close>.
  The parent of a \<open>Chain\<close> is a controller that exists; a \<open>Chain\<close> that names one that
  does not cannot happen and changes nothing.
\<close>

datatype cop = New | Chain nat | Listen nat nat | Abort nat

fun apply_cop :: "cop \<Rightarrow> 'a state \<Rightarrow> 'a state" where
  "apply_cop New s = snd (new_controller s)"
| "apply_cop (Chain p) s =
     (if p < length (ctrls s)
      then chainAbort p (fst (new_controller s)) (snd (new_controller s))
      else s)"
| "apply_cop (Listen c n) s =
     addEventListener c (next_lid s) (Unregister n) (s\<lparr>next_lid := Suc (next_lid s)\<rparr>)"
| "apply_cop (Abort q) s = abort q s"

lemma listeners_of_new_controller [simp]:
  "listeners_of d (snd (new_controller s)) = listeners_of d s"
  by (auto simp: listeners_of_def new_controller_def nth_append)

lemma listeners_of_addEventListener:
  "listeners_of d (addEventListener c l x s) =
     (if d = c \<and> c < length (ctrls s) then listeners_of d s @ [(l, x)] else listeners_of d s)"
  by (auto simp: listeners_of_def addEventListener_def)

lemma listeners_of_next_lid [simp]: "listeners_of d (s\<lparr>next_lid := n\<rparr>) = listeners_of d s"
  by (simp add: listeners_of_def)

lemma is_aborted_new_controller [simp]:
  "is_aborted d (snd (new_controller s)) = is_aborted d s"
  by (auto simp: is_aborted_def new_controller_def nth_append)

lemma is_aborted_addEventListener [simp]:
  "is_aborted d (addEventListener c l x s) = is_aborted d s"
  by (auto simp: is_aborted_def addEventListener_def nth_list_update)

lemma is_aborted_next_lid [simp]: "is_aborted d (s\<lparr>next_lid := n\<rparr>) = is_aborted d s"
  by (simp add: is_aborted_def)

lemma fields_new_controller [simp]:
  "length (ctrls (snd (new_controller s))) = Suc (length (ctrls s))"
  "fst (new_controller s) = length (ctrls s)"
  "fired (snd (new_controller s)) = fired s"
  "next_lid (snd (new_controller s)) = next_lid s"
  by (simp_all add: new_controller_def)

lemma fields_addEventListener [simp]:
  "length (ctrls (addEventListener c l x s)) = length (ctrls s)"
  "fired (addEventListener c l x s) = fired s"
  "next_lid (addEventListener c l x s) = next_lid s"
  by (simp_all add: addEventListener_def)

lemma listeners_of_chainAbort:
  "listeners_of d (chainAbort p c s) =
     (if d = c \<and> c < length (ctrls s) then listeners_of d s @ [(Suc (next_lid s), RemoveListener p (next_lid s))]
      else listeners_of d s)
     @ (if d = p \<and> p < length (ctrls s) then [(next_lid s, AbortChild c)] else [])"
  by (simp add: chainAbort_def Let_def listeners_of_addEventListener)

lemma fields_chainAbort [simp]:
  "length (ctrls (chainAbort p c s)) = length (ctrls s)"
  "fired (chainAbort p c s) = fired s"
  "next_lid (chainAbort p c s) = next_lid s + 2"
  "is_aborted d (chainAbort p c s) = is_aborted d s"
  by (simp_all add: chainAbort_def Let_def)

text \<open>What holds of every state these operations reach from the empty one: a listener
  that removes a listener names an identity that has been given out, a handler aborts
  a controller created after the one it is registered on, and an \<open>abort\<close> event was
  dispatched only on a controller that exists.\<close>

definition wf_ctrls :: "'a state \<Rightarrow> bool" where
  "wf_ctrls t =
     ((\<forall>d l x. (l, x) \<in> set (listeners_of d t) \<longrightarrow>
          (\<forall>q n. x = RemoveListener q n \<longrightarrow> n < next_lid t) \<and> (\<forall>b. x = AbortChild b \<longrightarrow> d < b))
      \<and> (\<forall>f \<in> set (fired t). f < length (ctrls t)))"

lemma wf_ctrls_dispatch: "wf_ctrls t \<Longrightarrow> wf_ctrls (dispatch st t)"
proof (rule dispatch_invariant [where I = "\<lambda>st t. wf_ctrls t"])
  show "wf_ctrls (removeEventListener q n t)" if "wf_ctrls t" for q n and t :: "'a state"
    using that unfolding wf_ctrls_def
    by (auto simp: listeners_of_removeEventListener split: if_splits)
  show "wf_ctrls (unregister n t)" if "wf_ctrls t" for n and t :: "'a state"
    using that unfolding wf_ctrls_def by simp
  show "wf_ctrls (mark_aborted b t)" if "wf_ctrls t" "b < length (ctrls t)" for b and t :: "'a state"
    using that unfolding wf_ctrls_def by auto
qed

lemma wf_ctrls_apply: "wf_ctrls t \<Longrightarrow> wf_ctrls (apply_cop op t)"
proof (cases op)
  case New
  assume "wf_ctrls t"
  with New show ?thesis unfolding wf_ctrls_def by (auto simp: less_Suc_eq)
next
  case (Chain p)
  assume "wf_ctrls t"
  with Chain show ?thesis unfolding wf_ctrls_def
    by (auto simp: listeners_of_chainAbort less_Suc_eq split: if_splits)
next
  case (Listen c n)
  assume "wf_ctrls t"
  with Listen show ?thesis unfolding wf_ctrls_def
    by (auto simp: listeners_of_addEventListener less_Suc_eq split: if_splits)
next
  case (Abort q)
  assume w: "wf_ctrls t"
  show ?thesis
  proof (cases "q < length (ctrls t) \<and> \<not> aborted (ctrls t ! q)")
    case True
    with w have "wf_ctrls (mark_aborted q t)" unfolding wf_ctrls_def by auto
    then have "wf_ctrls (dispatch [(q, listeners (ctrls t ! q))] (mark_aborted q t))"
      by (rule wf_ctrls_dispatch)
    with True Abort show ?thesis by (simp add: abort_def)
  next
    case False
    with w Abort show ?thesis by (auto simp: abort_def)
  qed
qed

lemma wf_ctrls_reachable: "wf_ctrls (fold apply_cop ops (init_state :: 'a state))"
proof -
  have "wf_ctrls (init_state :: 'a state)"
    by (simp add: wf_ctrls_def init_state_def listeners_of_def)
  moreover have "wf_ctrls t \<Longrightarrow> wf_ctrls (fold apply_cop ops t)" for t :: "'a state"
    by (induction ops arbitrary: t) (simp_all add: wf_ctrls_apply)
  ultimately show ?thesis by blast
qed


lemma linked_extend:
  assumes l: "linked v p c h k t"
    and len: "length (ctrls t) \<le> length (ctrls t')"
    and lid: "next_lid t \<le> next_lid t'"
    and fi: "fired t' = fired t"
    and ab: "\<And>d. is_aborted d t' = is_aborted d t"
    and ext: "\<And>d. \<exists>new. listeners_of d t' = listeners_of d t @ new \<and>
                (\<forall>e \<in> set new. next_lid t \<le> fst e \<and> static_ok p c h k d (snd e))"
  shows "linked v p c h k t'"
  unfolding linked_def
proof (rule link_invI)
  note D = link_invD [OF l [unfolded linked_def]]
  show "p < c" by (rule D)
  show "c < length (ctrls t')" "h < next_lid t'" "k < next_lid t'"
    using D(2-4) len lid by simp_all
  show "static_ok p c h k d x" if "(l', x) \<in> set (listeners_of d t')" for d l' x
  proof -
    from ext [of d] obtain new where n: "listeners_of d t' = listeners_of d t @ new"
      "\<forall>e \<in> set new. next_lid t \<le> fst e \<and> static_ok p c h k d (snd e)" by blast
    from that n(1) have "(l', x) \<in> set (listeners_of d t) \<or> (l', x) \<in> set new" by simp
    then show ?thesis
    proof
      assume "(l', x) \<in> set (listeners_of d t)"
      then show ?thesis by (rule D(5))
    next
      assume "(l', x) \<in> set new"
      with n(2) show ?thesis by force
    qed
  qed
  show "static_ok p c h k d x" if "pending [] d l' x" for d l' x
    using that by simp
  show "(h, AbortChild c) \<in> set (listeners_of p t')" if "\<not> is_aborted c t'"
  proof -
    from that have "(h, AbortChild c) \<in> set (listeners_of p t)" using D(7) by (simp add: ab)
    with ext [of p] show ?thesis by auto
  qed
  show "(c, ls) \<notin> set []" for ls :: "(nat \<times> handler) list" by simp
  show "(k, RemoveListener p h) \<in> set (listeners_of c t')"
    using D(9) ext [of c] by auto
  show "\<not> registered p h t' \<or> pending [] c k (RemoveListener p h)" if "is_aborted c t'"
  proof -
    from that have "is_aborted c t" by (simp add: ab)
    from D(10) [OF this] have nr: "\<not> registered p h t" by simp
    from ext [of p] obtain new where n: "listeners_of p t' = listeners_of p t @ new"
      "\<forall>e \<in> set new. next_lid t \<le> fst e \<and> static_ok p c h k p (snd e)" by blast
    have "h \<notin> fst ` set new"
    proof
      assume "h \<in> fst ` set new"
      then obtain e where "e \<in> set new" "fst e = h" by auto
      with n(2) have "next_lid t \<le> h" by auto
      with D(3) show False by simp
    qed
    with nr n(1) have "\<not> registered p h t'" by (auto simp: registered_def)
    then show ?thesis by simp
  qed
  show "count_list (fired t') c = (if is_aborted c t' then 1 else 0)"
    using D(11) by (simp add: fi ab)
  show "is_aborted c t' \<or> pending [] p h (AbortChild c)" if v "is_aborted p t'"
  proof -
    from that(2) have "is_aborted p t" by (simp add: ab)
    from D(12) [OF that(1) this] show ?thesis by (simp add: ab)
  qed
qed

lemma linked_apply:
  assumes l: "linked v p c h k t"
  shows "linked v p c h k (apply_cop op t)"
proof (cases op)
  case New
  have "linked v p c h k (snd (new_controller t))"
    by (rule linked_extend [OF l]) simp_all
  with New show ?thesis by simp
next
  case (Chain q)
  note D = link_invD [OF l [unfolded linked_def]]
  show ?thesis
  proof (cases "q < length (ctrls t)")
    case False
    with Chain l show ?thesis by simp
  next
    case True
    have "linked v p c h k (chainAbort q (length (ctrls t)) (snd (new_controller t)))"
    proof (rule linked_extend [OF l])
      fix d
      show "\<exists>new. listeners_of d (chainAbort q (length (ctrls t)) (snd (new_controller t)))
                    = listeners_of d t @ new \<and>
               (\<forall>e \<in> set new. next_lid t \<le> fst e \<and> static_ok p c h k d (snd e))"
        using True D(3,4) by (auto simp: listeners_of_chainAbort static_ok_def)
    qed simp_all
    with Chain True show ?thesis by simp
  qed
next
  case (Listen c' n)
  have "linked v p c h k (addEventListener c' (next_lid t) (Unregister n) (t\<lparr>next_lid := Suc (next_lid t)\<rparr>))"
  proof (rule linked_extend [OF l])
    fix d
    show "\<exists>new. listeners_of d (addEventListener c' (next_lid t) (Unregister n)
                   (t\<lparr>next_lid := Suc (next_lid t)\<rparr>)) = listeners_of d t @ new \<and>
             (\<forall>e \<in> set new. next_lid t \<le> fst e \<and> static_ok p c h k d (snd e))"
      by (auto simp: listeners_of_addEventListener static_ok_def)
  qed simp_all
  with Listen show ?thesis by simp
next
  case (Abort q)
  with l show ?thesis by (simp add: linked_abort)
qed

lemma linked_fold: "linked v p c h k t \<Longrightarrow> linked v p c h k (fold apply_cop ops t)"
  by (induction ops arbitrary: t) (simp_all add: linked_apply)

lemma chainAbort_links:
  assumes w: "wf_ctrls s" and p: "p < length (ctrls s)"
  shows "linked (\<not> is_aborted p s) p (length (ctrls s)) (next_lid s) (Suc (next_lid s))
           (chainAbort p (length (ctrls s)) (snd (new_controller s)))"
  unfolding linked_def
proof (rule link_invI)
  let ?c = "length (ctrls s)"
  let ?t = "chainAbort p ?c (snd (new_controller s))"
  from w have lst: "\<And>d l q n. (l, RemoveListener q n) \<in> set (listeners_of d s) \<Longrightarrow> n < next_lid s"
    and edge: "\<And>d l b. (l, AbortChild b) \<in> set (listeners_of d s) \<Longrightarrow> d < b"
    and fr: "\<And>f. f \<in> set (fired s) \<Longrightarrow> f < length (ctrls s)"
    unfolding wf_ctrls_def by blast+
  have nc: "\<not> is_aborted ?c s" by (simp add: is_aborted_def)
  from p show "p < ?c" .
  show "?c < length (ctrls ?t)" "next_lid s < next_lid ?t" "Suc (next_lid s) < next_lid ?t"
    by simp_all
  show "static_ok p ?c (next_lid s) (Suc (next_lid s)) d x"
    if "(l, x) \<in> set (listeners_of d ?t)" for d l x
    using that p
    by (auto simp: listeners_of_chainAbort static_ok_def split: if_splits dest: lst edge)
  show "static_ok p ?c (next_lid s) (Suc (next_lid s)) d x" if "pending [] d l x" for d l x
    using that by simp
  show "(next_lid s, AbortChild ?c) \<in> set (listeners_of p ?t)"
    using p by (simp add: listeners_of_chainAbort)
  show "(?c, ls) \<notin> set []" for ls :: "(nat \<times> handler) list" by simp
  show "(Suc (next_lid s), RemoveListener p (next_lid s)) \<in> set (listeners_of ?c ?t)"
    using p by (simp add: listeners_of_chainAbort)
  show "\<not> registered p (next_lid s) ?t \<or>
        pending [] ?c (Suc (next_lid s)) (RemoveListener p (next_lid s))" if "is_aborted ?c ?t"
    using that nc by simp
  show "count_list (fired ?t) ?c = (if is_aborted ?c ?t then 1 else 0)"
  proof -
    have "?c \<notin> set (fired s)" using fr [of ?c] by auto
    then show ?thesis using nc by (simp add: count_list_0_iff)
  qed
  show "is_aborted ?c ?t \<or> pending [] p (next_lid s) (AbortChild ?c)"
    if "\<not> is_aborted p s" "is_aborted p ?t"
    using that by simp
qed


lemma abort_keeps_earlier:
  assumes edge: "\<And>d l b. (l, AbortChild b) \<in> set (listeners_of d t) \<Longrightarrow> d < b"
    and pc: "p < c"
  shows "is_aborted p (abort c t) = is_aborted p t"
proof (cases "c < length (ctrls t) \<and> \<not> aborted (ctrls t ! c)")
  case False
  then show ?thesis by (auto simp: abort_def)
next
  case True
  define I where "I (st :: (nat \<times> (nat \<times> handler) list) list) (u :: 'a state) \<longleftrightarrow>
      (\<forall>d (l :: nat) b. (l, AbortChild b) \<in> set (listeners_of d u) \<longrightarrow> d < b)
      \<and> (\<forall>f \<in> set st. p < fst f \<and> (\<forall>e \<in> set (snd f). \<forall>b. snd e = AbortChild b \<longrightarrow> fst f < b))
      \<and> is_aborted p u = is_aborted p t" for st u
  from True have lc: "listeners (ctrls t ! c) = listeners_of c t" by (simp add: listeners_of_def)
  have start: "I [(c, listeners (ctrls t ! c))] (mark_aborted c t)"
    unfolding I_def using edge pc True
    by (auto simp: lc is_aborted_mark_aborted)
  have "I [] (dispatch [(c, listeners (ctrls t ! c))] (mark_aborted c t))"
    using start
  proof (rule dispatch_invariant [where I = I])
    show "I st u" if "I ((d, []) # st) u" for d st u
      using that unfolding I_def by simp
    show "I ((d, ls) # st) u" if "I ((d, (l, x) # ls) # st) u" for d l x ls st u
      using that unfolding I_def by simp
    show "I ((d, ls) # st) (removeEventListener q n u)"
      if "I ((d, (l, RemoveListener q n) # ls) # st) u" for d l q n ls st u
      using that unfolding I_def
      by (auto simp: listeners_of_removeEventListener split: if_splits)
    show "I ((d, ls) # st) (unregister n u)"
      if "I ((d, (l, Unregister n) # ls) # st) u" for d l n ls st u
      using that unfolding I_def by simp
    show "I ((b, listeners (ctrls u ! b)) # (d, ls) # st) (mark_aborted b u)"
      if i: "I ((d, (l, AbortChild b) # ls) # st) u" and b: "b < length (ctrls u)"
      for d l b ls st u
    proof -
      from b have lb: "listeners (ctrls u ! b) = listeners_of b u" by (simp add: listeners_of_def)
      from i have "p < d" "d < b" unfolding I_def by simp_all
      then have "p < b" "b \<noteq> p" by simp_all
      with i b show ?thesis unfolding I_def
        by (auto simp: lb is_aborted_mark_aborted)
    qed
    show "I ((d, ls) # st) u" if "I ((d, (l, AbortChild b) # ls) # st) u" for d l b ls st u
      using that unfolding I_def by simp
  qed
  with True show ?thesis by (simp add: I_def abort_def)
qed

text \<open>
  C5. After any operations \<open>before\<close>, let \<open>chainAbort\<close> link a parent \<open>p\<close> to a controller
  \<open>c\<close> that has just been created (every call of \<open>chainAbort\<close> in the library passes
  such a child), with \<open>h\<close> the identity of the listener it registers on the parent, and
  let any operations \<open>after\<close> follow. In the state \<open>t\<close> reached:
  \<^item> if the parent was not aborted when the link was made, then whenever the parent is
    aborted (by its own \<open>abort()\<close> or through a chain that leads to it) the child is
    aborted too, and aborting the parent leaves the child aborted with the child's
    \<open>abort\<close> event dispatched exactly once;
  \<^item> aborting the child leaves the parent's flag as it is;
  \<^item> aborting the child leaves it aborted and the listener \<open>h\<close> removed from the parent;
  \<^item> whenever the child is aborted in \<open>t\<close>, for whatever reason, the listener \<open>h\<close> is no
    longer registered on the parent, and while it is not aborted the listener is
    registered;
  \<^item> the child's \<open>abort\<close> event has been dispatched at most once.
\<close>

theorem chainAbort_contract:
  fixes s t :: "'a state"
  assumes "s = fold apply_cop before init_state"
    and "p < length (ctrls s)"
    and "c = length (ctrls s)" and "h = next_lid s"
    and "t = fold apply_cop after (chainAbort p c (snd (new_controller s)))"
  shows "(\<not> is_aborted p s \<longrightarrow>
            (is_aborted p t \<longrightarrow> is_aborted c t)
            \<and> is_aborted c (abort p t) \<and> count_list (fired (abort p t)) c = 1)
       \<and> is_aborted p (abort c t) = is_aborted p t
       \<and> is_aborted c (abort c t) \<and> \<not> registered p h (abort c t)
       \<and> (is_aborted c t \<longrightarrow> \<not> registered p h t)
       \<and> (\<not> is_aborted c t \<longrightarrow> registered p h t)
       \<and> count_list (fired t) c \<le> 1"
proof -
  have w: "wf_ctrls s" unfolding assms(1) by (rule wf_ctrls_reachable)
  from chainAbort_links [OF w assms(2)]
  have l: "linked (\<not> is_aborted p s) p c h (Suc h) t"
    unfolding assms(3,4,5) by (rule linked_fold)
  note D = link_invD [OF l [unfolded linked_def]]
  have A: "\<not> is_aborted p s \<longrightarrow>
      (is_aborted p t \<longrightarrow> is_aborted c t)
      \<and> is_aborted c (abort p t) \<and> count_list (fired (abort p t)) c = 1"
  proof
    assume "\<not> is_aborted p s"
    with l have l': "linked True p c h (Suc h) t" by simp
    from D(1,2) have "p < length (ctrls t)" by simp
    then have ap: "is_aborted p (abort p t)" by (rule abort_aborts)
    from linked_parent_aborted [OF linked_abort [OF l', of p] ap]
      linked_parent_aborted(1) [OF l']
    show "(is_aborted p t \<longrightarrow> is_aborted c t)
      \<and> is_aborted c (abort p t) \<and> count_list (fired (abort p t)) c = 1" by blast
  qed
  have B: "is_aborted p (abort c t) = is_aborted p t"
  proof (rule abort_keeps_earlier)
    show "d < b" if "(l, AbortChild b) \<in> set (listeners_of d t)" for d l b
      using D(5) [OF that] by (simp add: static_ok_def)
    show "p < c" by (rule D)
  qed
  have C1: "is_aborted c (abort c t)" using D(2) by (rule abort_aborts)
  have C2: "\<not> registered p h (abort c t)"
    using linked_removed [OF linked_abort [OF l, of c] C1] .
  have E: "is_aborted c t \<longrightarrow> \<not> registered p h t"
    using linked_removed [OF l] by blast
  have F: "\<not> is_aborted c t \<longrightarrow> registered p h t"
    using D(7) registeredI by blast
  have G: "count_list (fired t) c \<le> 1" using D(11) by simp
  from A B C1 C2 E F G show ?thesis by blast
qed

definition chained_example :: "int state" where
  "chained_example =
     fold apply_cop [Chain 1, Listen 1 0]
       (chainAbort 0 (length (ctrls (fold apply_cop [New] (init_state :: int state))))
          (snd (new_controller (fold apply_cop [New] init_state))))"

theorem chainAbort_contract_witness:
  "0 < length (ctrls (fold apply_cop [New] (init_state :: int state)))
   \<and> \<not> is_aborted 0 (fold apply_cop [New] (init_state :: int state))
   \<and> \<not> is_aborted 0 chained_example
   \<and> \<not> is_aborted 1 chained_example
   \<and> registered 0 0 chained_example
   \<and> is_aborted 1 (abort 0 chained_example)
   \<and> count_list (fired (abort 0 chained_example)) 1 = 1
   \<and> \<not> is_aborted 0 (abort 1 chained_example)
   \<and> is_aborted 1 (abort 1 chained_example)
   \<and> \<not> registered 0 0 (abort 1 chained_example)"
proof -
  have h2: "0 < length (ctrls (fold apply_cop [New] (init_state :: int state)))"
    by (simp add: eval_defs)
  have c: "length (ctrls (fold apply_cop [New] (init_state :: int state))) = 1"
    and h: "next_lid (fold apply_cop [New] (init_state :: int state)) = 0"
    by (simp_all add: eval_defs)
  have e: "\<not> is_aborted 0 (fold apply_cop [New] (init_state :: int state))"
    "\<not> is_aborted 0 chained_example" "\<not> is_aborted 1 chained_example"
    by (simp_all add: chained_example_def eval_defs)
  note T = chainAbort_contract [OF refl h2 refl refl chained_example_def, unfolded c h]
  from T e h2 show ?thesis by simp
qed

text \<open>
  C5 as the specification states it, for every parent token, fails for a parent that
  is already aborted when the link is made. \<open>chainAbort\<close> does not read
  \<open>parentSignal.aborted\<close>, and the \<open>abort\<close> event of that parent has been dispatched
  already: the listener it registers is never called, the child stays as it is however
  often \<open>abort()\<close> is called on the parent, and its \<open>abort\<close> event is dispatched zero times.
\<close>

definition late_chain_example :: "int state" where
  "late_chain_example =
     chainAbort 0 1 (snd (new_controller (fold apply_cop [New, Abort 0] init_state)))"

theorem chainAbort_after_parent_abort:
  "is_aborted 0 late_chain_example
   \<and> \<not> is_aborted 1 late_chain_example
   \<and> \<not> is_aborted 1 (abort 0 late_chain_example)
   \<and> count_list (fired (abort 0 late_chain_example)) 1 = 0
   \<and> registered 0 0 (abort 0 late_chain_example)"
  by (simp add: late_chain_example_def eval_defs)

end
